theory Spec2Isabelle
  imports Main "HOL-Library.Signed_Division" "HOL-Library.Numeral_Type" "HOL-Library.Multiset"
begin

section \<open>Field parameters\<close>

text \<open>The two static constants of class \<open>GF2mElement\<close>: the extension degree and the
  auxiliary prime \<open>2 * m + 1\<close>.\<close>

definition m :: nat where
  "m = 233"

definition p :: int where
  "p = 467"

section \<open>Field elements\<close>

text \<open>The class has one data member, \<open>std::vector<bool> coefficients\<close>; an element is
  modelled by that vector. Both constructors end with \<open>coefficients.resize(m, false)\<close>,
  so every element the program builds has exactly \<open>m\<close> coefficients.\<close>

type_synonym GF2mElement = "bool list"

text \<open>\<open>std::vector::resize(n, v)\<close>: cut to the first \<open>n\<close> entries, or pad with \<open>v\<close>.\<close>

definition resize :: "nat \<Rightarrow> 'a \<Rightarrow> 'a list \<Rightarrow> 'a list" where
  "resize n v xs = take n xs @ replicate (n - length xs) v"

definition GF2mElement :: "bool list \<Rightarrow> GF2mElement" where
  "GF2mElement coeffs = resize m False coeffs"

text \<open>The string constructor walks the string from its last character down to its first
  and pushes \<open>bitString[i] == '1'\<close>. Its loop index is \<open>int i = bitString.length() - 1\<close>:
  the unsigned length minus one is narrowed to a 32-bit \<open>int\<close>, which \<open>start_index\<close> computes
  (\<open>- 1\<close> for the empty string, so that the loop does not run).\<close>

definition start_index :: "nat \<Rightarrow> int" where
  "start_index len =
     (let w = (int len - 1) mod 2 ^ 32 in if w < 2 ^ 31 then w else w - 2 ^ 32)"

definition GF2mElement_of_string :: "string \<Rightarrow> GF2mElement" where
  "GF2mElement_of_string bitString =
     GF2mElement (map (\<lambda>i. bitString ! i = CHR ''1'')
                    (rev [0..<nat (start_index (length bitString) + 1)]))"

text \<open>A loop that stores \<open>g i\<close> at slot \<open>f i\<close> of a vector, for the indices of \<open>is\<close> in turn.\<close>

definition store_loop :: "(nat \<Rightarrow> nat) \<Rightarrow> (nat \<Rightarrow> 'a) \<Rightarrow> nat list \<Rightarrow> 'a list \<Rightarrow> 'a list" where
  "store_loop f h is v = foldl (\<lambda>acc i. acc[f i := h i]) v is"

definition add :: "GF2mElement \<Rightarrow> GF2mElement \<Rightarrow> GF2mElement" where
  "add a other =
     GF2mElement (store_loop (\<lambda>i. i) (\<lambda>i. a ! i \<noteq> other ! i) [0..<m] (replicate m False))"

definition squareONB :: "GF2mElement \<Rightarrow> GF2mElement" where
  "squareONB a =
     GF2mElement (store_loop (\<lambda>i. i) (\<lambda>i. a ! (i + 1)) [0..<m - 1]
                    ((replicate m False)[m - 1 := a ! 0]))"

definition trace :: "GF2mElement \<Rightarrow> bool" where
  "trace a = foldl (\<lambda>trace_value coeff. trace_value \<noteq> coeff) False a"

text \<open>\<open>operator<<\<close>: the characters written to the stream, coefficient \<open>m - 1\<close> first.\<close>

definition serialize :: "GF2mElement \<Rightarrow> string" where
  "serialize element =
     map (\<lambda>i. if element ! i then CHR ''1'' else CHR ''0'') (rev [0..<m])"

text \<open>\<open>cyclicLeftShift\<close> is only ever called with a non-negative \<open>positions\<close>; a negative
  one would index the vector below zero.\<close>

definition cyclicLeftShift :: "GF2mElement \<Rightarrow> nat \<Rightarrow> GF2mElement" where
  "cyclicLeftShift a positions =
     (let size = length a
      in GF2mElement (store_loop (\<lambda>i. (i + positions) mod size) (\<lambda>i. a ! i) [0..<size]
                        (replicate size False)))"

section \<open>The multiplication matrix\<close>

text \<open>The static \<open>mod_pow_2_cache\<close> (an \<open>unordered_map<int, int>\<close>) is global mutable
  state: every function that reaches \<open>mod_pow_2\<close> takes the cache and returns it updated.
  The C++ \<open>%\<close> on \<open>int\<close> truncates towards zero, which is \<open>smod\<close>; all values stay far
  below \<open>2 ^ 31\<close>, so \<open>int\<close> arithmetic does not overflow.\<close>

type_synonym cache = "int \<rightharpoonup> int"

fun pow_loop :: "nat \<Rightarrow> int \<Rightarrow> int \<Rightarrow> int" where
  "pow_loop 0 md result = result"
| "pow_loop (Suc n) md result = pow_loop n md ((result * 2) smod md)"

definition mod_pow_2 :: "int \<Rightarrow> int \<Rightarrow> cache \<Rightarrow> int \<times> cache" where
  "mod_pow_2 exponent md c =
     (case c exponent of
        Some r \<Rightarrow> (r, c)
      | None \<Rightarrow> (let result = pow_loop (nat exponent) md 1 in (result, c(exponent \<mapsto> result))))"

definition compute_matrix_element :: "int \<Rightarrow> int \<Rightarrow> cache \<Rightarrow> int \<times> cache" where
  "compute_matrix_element i j c =
     (let md = p in
      case mod_pow_2 i md c of (pow_i, c1) \<Rightarrow>
      case mod_pow_2 j md c1 of (pow_j, c2) \<Rightarrow>
      let results = [(pow_i + pow_j) smod md,
                     (pow_i - pow_j + md) smod md,
                     (- pow_i + pow_j + md) smod md,
                     (- pow_i - pow_j + md) smod md]
      in (if list_ex (\<lambda>result. result = 1 \<or> result = - 466) results then 1 else 0, c2))"

text \<open>The inner loop over \<open>j\<close>, with its \<open>break\<close> at the second match, and the outer loop
  over \<open>i\<close>.\<close>

fun scan_row :: "nat \<Rightarrow> nat list \<Rightarrow> nat \<Rightarrow> (nat \<times> nat) list \<Rightarrow> cache
                   \<Rightarrow> (nat \<times> nat) list \<times> cache" where
  "scan_row i [] prevVal one_positions c = (one_positions, c)"
| "scan_row i (j # js) prevVal one_positions c =
     (case compute_matrix_element (int i) (int j) c of (e, c') \<Rightarrow>
        if e = 1 then
          (if prevVal + 1 = 2 then (one_positions @ [(i, j)], c')
           else scan_row i js (prevVal + 1) (one_positions @ [(i, j)]) c')
        else scan_row i js prevVal one_positions c')"

fun scan_rows :: "nat list \<Rightarrow> (nat \<times> nat) list \<Rightarrow> cache \<Rightarrow> (nat \<times> nat) list \<times> cache" where
  "scan_rows [] one_positions c = (one_positions, c)"
| "scan_rows (i # is) one_positions c =
     (case scan_row i [0..<m] 0 one_positions c of (one_positions', c') \<Rightarrow>
        scan_rows is one_positions' c')"

definition createMultiplicativeMatrix :: "cache \<Rightarrow> (nat \<times> nat) list \<times> cache" where
  "createMultiplicativeMatrix c = scan_rows [0..<m] [] c"

section \<open>Multiplication\<close>

definition transposeToVector :: "GF2mElement \<Rightarrow> bool list" where
  "transposeToVector a = store_loop (\<lambda>i. i) (\<lambda>i. a ! (m - 1 - i)) [0..<m] (replicate m False)"

definition multiplyWithMatrix :: "GF2mElement \<Rightarrow> (nat \<times> nat) list \<Rightarrow> bool list" where
  "multiplyWithMatrix a one_positions =
     foldl (\<lambda>result (i, j). result[i := (result ! i \<noteq> a ! (m - 1 - j))])
       (replicate m False) one_positions"

definition multiplyWithTransposed :: "GF2mElement \<Rightarrow> bool list \<Rightarrow> bool" where
  "multiplyWithTransposed a other =
     foldl (\<lambda>result i. if other ! i then (result \<noteq> a ! i) else result) False [0..<m]"

fun shift_loop :: "(nat \<times> nat) list \<Rightarrow> nat \<Rightarrow> GF2mElement \<Rightarrow> GF2mElement \<Rightarrow> string \<Rightarrow> string" where
  "shift_loop matrixA 0 a b resultVector = resultVector"
| "shift_loop matrixA (Suc n) a b resultVector =
     (let productWithA = multiplyWithMatrix a matrixA;
          transposedB = transposeToVector b;
          multiplicationResult = multiplyWithTransposed (GF2mElement productWithA) transposedB
      in shift_loop matrixA n (cyclicLeftShift a 1) (cyclicLeftShift b 1)
           (resultVector @ [if multiplicationResult then CHR ''1'' else CHR ''0'']))"

definition multiplyAndShift :: "GF2mElement \<Rightarrow> GF2mElement \<Rightarrow> nat \<Rightarrow> cache \<Rightarrow> string \<times> cache" where
  "multiplyAndShift a b steps c =
     (case createMultiplicativeMatrix c of (matrixA, c') \<Rightarrow> (shift_loop matrixA steps a b [], c'))"

text \<open>\<open>operator*\<close>, here \<open>times_elem\<close>: the round outputs are read from the last one back to the first.\<close>

definition times_elem :: "GF2mElement \<Rightarrow> GF2mElement \<Rightarrow> cache \<Rightarrow> GF2mElement \<times> cache" where
  "times_elem a other c =
     (case multiplyAndShift a other 233 c of (result, c') \<Rightarrow>
        (GF2mElement (map (\<lambda>ch. ch = CHR ''1'') (rev result)), c'))"

section \<open>Inversion\<close>

text \<open>The member function \<open>inverse\<close>, here \<open>inverse_elem\<close>.\<close>

definition m_binary :: string where
  "m_binary = ''11101000''"

fun square_times :: "nat \<Rightarrow> GF2mElement \<Rightarrow> GF2mElement" where
  "square_times 0 beta = beta"
| "square_times (Suc j) beta = square_times j (squareONB beta)"

fun inverse_loop :: "nat list \<Rightarrow> GF2mElement \<Rightarrow> GF2mElement \<Rightarrow> nat \<Rightarrow> cache
                       \<Rightarrow> GF2mElement \<times> cache" where
  "inverse_loop [] self beta k c = (beta, c)"
| "inverse_loop (i # is) self beta k c =
     (let original_beta = beta in
      case times_elem (square_times k beta) original_beta c of (beta', c') \<Rightarrow>
        if m_binary ! i = CHR ''1'' then
          (case times_elem (squareONB beta') self c' of (beta'', c'') \<Rightarrow>
             inverse_loop is self beta'' (k * 2 + 1) c'')
        else inverse_loop is self beta' (k * 2) c')"

definition inverse_elem :: "GF2mElement \<Rightarrow> cache \<Rightarrow> GF2mElement \<times> cache" where
  "inverse_elem a c =
     (case inverse_loop [1..<8] a a 1 c of (beta, c') \<Rightarrow> (squareONB beta, c'))"

text \<open>The element \<open>power\<close> starts from, \<open>std::vector<bool> neutral_coeffs(m, true)\<close>, and
  the all-false element.\<close>

definition identity :: GF2mElement where
  "identity = GF2mElement (replicate m True)"

definition zero :: GF2mElement where
  "zero = GF2mElement (replicate m False)"

section \<open>The matrix without the cache\<close>

text \<open>The cache only ever stores \<open>pow_loop e p 1\<close> under the key \<open>e\<close> (the one caller passes
  \<open>mod = p\<close>), so it never changes a result. \<open>cache_ok\<close> is that invariant; \<open>pow2\<close>,
  \<open>match_test\<close>, \<open>entry\<close>, \<open>row\<close> and \<open>matrix\<close> are what the functions above compute under
  it.\<close>

definition pow2 :: "nat \<Rightarrow> int" where
  "pow2 e = pow_loop e p 1"

definition cache_ok :: "cache \<Rightarrow> bool" where
  "cache_ok c \<longleftrightarrow> (\<forall>e r. c e = Some r \<longrightarrow> r = pow2 (nat e))"

definition match_test :: "int \<Rightarrow> int \<Rightarrow> bool" where
  "match_test u v =
     list_ex (\<lambda>result. result = 1 \<or> result = - 466)
       [(u + v) smod p, (u - v + p) smod p, (- u + v + p) smod p, (- u - v + p) smod p]"

definition entry :: "nat \<Rightarrow> nat \<Rightarrow> bool" where
  "entry i j = match_test (pow2 i) (pow2 j)"

definition row :: "nat \<Rightarrow> nat list" where
  "row i = take 2 (filter (entry i) [0..<m])"

definition matrix :: "(nat \<times> nat) list" where
  "matrix = concat (map (\<lambda>i. map (Pair i) (row i)) [0..<m])"

section \<open>Arithmetic modulo 467\<close>

text \<open>The residues modulo \<open>p = 467\<close> are the type \<open>467\<close>; \<open>g s\<close> is the residue of \<open>2 ^ s\<close>.
  Every non-zero residue is \<open>g s\<close> or \<open>- g s\<close> for exactly one \<open>s < 233\<close>, its \<open>dlog\<close>;
  \<open>pm x y\<close> says that \<open>x\<close> is \<open>y\<close> or \<open>- y\<close>. \<open>pow_table\<close> lists the successive values
  of \<open>pow_loop\<close>.\<close>

definition g :: "nat \<Rightarrow> 467" where
  "g s = 2 ^ s"

definition pm :: "467 \<Rightarrow> 467 \<Rightarrow> bool" where
  "pm x y \<longleftrightarrow> x = y \<or> x = - y"

definition dlog :: "467 \<Rightarrow> nat" where
  "dlog k = (THE s. s < 233 \<and> pm k (g s))"

fun pow_table :: "nat \<Rightarrow> int \<Rightarrow> int list" where
  "pow_table 0 r = []"
| "pow_table (Suc n) r = r # pow_table n ((r * 2) smod p)"

section \<open>Multiplication without the cache\<close>

text \<open>\<open>co a s\<close> is coefficient \<open>m - 1 - s\<close> of \<open>a\<close>, the \<open>s\<close>-th character of its printed
  form; \<open>round_bit\<close> is the output bit of one round of \<open>multiplyAndShift\<close>, \<open>shifted s a\<close>
  the element after \<open>s\<close> rounds, and \<open>mul\<close> the product computed with the matrix of the
  previous section. \<open>z2\<close> reads a coefficient as an element of the integers modulo 2.\<close>

definition co :: "GF2mElement \<Rightarrow> nat \<Rightarrow> bool" where
  "co a s = a ! (m - 1 - s)"

definition round_bit :: "(nat \<times> nat) list \<Rightarrow> GF2mElement \<Rightarrow> GF2mElement \<Rightarrow> bool" where
  "round_bit matrixA a b =
     multiplyWithTransposed (GF2mElement (multiplyWithMatrix a matrixA)) (transposeToVector b)"

definition shifted :: "nat \<Rightarrow> GF2mElement \<Rightarrow> GF2mElement" where
  "shifted s a = ((\<lambda>x. cyclicLeftShift x 1) ^^ s) a"

definition z2 :: "bool \<Rightarrow> 2" where
  "z2 b = (if b then 1 else 0)"

definition mul :: "GF2mElement \<Rightarrow> GF2mElement \<Rightarrow> GF2mElement" where
  "mul a b = GF2mElement (map (\<lambda>ch. ch = CHR ''1'') (rev (shift_loop matrix 233 a b [])))"

section \<open>The algebra behind the product\<close>

text \<open>\<open>phi a\<close> spreads the coefficients of \<open>a\<close> over the residues modulo 467: the residues
  \<open>g s\<close> and \<open>- g s\<close> both carry the \<open>s\<close>-th printed coefficient, and 0 carries nothing.
  \<open>conv\<close> is the cyclic convolution of two such functions, \<open>hmap\<close> sends a residue \<open>y\<close>
  to the matrix position it stands for, \<open>pw a n\<close> is the \<open>n\<close>-fold product of \<open>a\<close>, and
  \<open>chain\<close> follows the counter \<open>k\<close> of the inversion loop.\<close>

definition phi :: "GF2mElement \<Rightarrow> 467 \<Rightarrow> 2" where
  "phi a k = (if k = 0 then 0 else z2 (co a (dlog k)))"

definition hmap :: "467 \<Rightarrow> nat \<times> nat" where
  "hmap y = (dlog (1 - y), dlog y)"

fun pw :: "GF2mElement \<Rightarrow> nat \<Rightarrow> GF2mElement" where
  "pw a 0 = identity"
| "pw a (Suc n) = mul (pw a n) a"

fun chain :: "nat list \<Rightarrow> nat \<Rightarrow> nat" where
  "chain [] k = k"
| "chain (i # is) k = chain is (if m_binary ! i = CHR ''1'' then k * 2 + 1 else k * 2)"

definition conv :: "(467 \<Rightarrow> 2) \<Rightarrow> (467 \<Rightarrow> 2) \<Rightarrow> 467 \<Rightarrow> 2" where
  "conv F G k = (\<Sum>x\<in>UNIV. F x * G (k - x))"

text \<open>The element whose only set coefficient is coefficient 0.\<close>

definition e0 :: GF2mElement where
  "e0 = True # replicate 232 False"

section \<open>Elementary facts\<close>

lemma length_resize [simp]: "length (resize n v xs) = n"
  by (simp add: resize_def)

lemma resize_id [simp]: "length xs = n \<Longrightarrow> resize n v xs = xs"
  by (simp add: resize_def)

lemma length_GF2mElement [simp]: "length (GF2mElement coeffs) = m"
  by (simp add: GF2mElement_def)

lemma GF2mElement_id [simp]: "length coeffs = m \<Longrightarrow> GF2mElement coeffs = coeffs"
  by (simp add: GF2mElement_def)

lemma length_store_loop [simp]: "length (store_loop f h is v) = length v"
  unfolding store_loop_def by (induction "is" arbitrary: v) simp_all

lemma store_loop_snoc:
  "store_loop f h (is @ [i]) v = (store_loop f h is v)[f i := h i]"
  by (simp add: store_loop_def)

lemma store_loop_nth:
  assumes "inj_on f (set is)" and "i \<in> set is" and "f i < length v"
  shows "store_loop f h is v ! f i = h i"
  using assms
proof (induction "is" arbitrary: i rule: rev_induct)
  case Nil
  then show ?case by simp
next
  case (snoc x xs)
  show ?case
  proof (cases "i = x")
    case True
    with snoc.prems show ?thesis by (simp add: store_loop_snoc)
  next
    case False
    with snoc.prems have ix: "i \<in> set xs" and "f i \<noteq> f x"
      by (auto simp: inj_on_def)
    moreover from snoc.prems have "inj_on f (set xs)"
      by (auto simp: inj_on_def)
    ultimately show ?thesis
      using snoc.IH [of i] snoc.prems(3) by (simp add: store_loop_snoc)
  qed
qed

lemma store_loop_nth_other:
  assumes "\<forall>i\<in>set is. f i \<noteq> j"
  shows "store_loop f h is v ! j = v ! j"
  using assms
  by (induction "is" rule: rev_induct) (simp_all add: store_loop_def)

lemma length_add [simp]: "length (add a b) = m"
  by (simp add: add_def)

lemma length_squareONB [simp]: "length (squareONB a) = m"
  by (simp add: squareONB_def)

lemma length_cyclicLeftShift [simp]: "length (cyclicLeftShift a k) = m"
  by (simp add: cyclicLeftShift_def Let_def)

lemma m_pos [simp]: "0 < m"
  by (simp add: m_def)

lemma squareONB_nth:
  assumes "i < m"
  shows "squareONB a ! i = (if i = m - 1 then a ! 0 else a ! (i + 1))"
proof (cases "i = m - 1")
  case True
  have "store_loop (\<lambda>i. i) (\<lambda>i. a ! (i + 1)) [0..<m - 1] ((replicate m False)[m - 1 := a ! 0]) ! (m - 1)
        = ((replicate m False)[m - 1 := a ! 0]) ! (m - 1)"
    by (rule store_loop_nth_other) simp
  with True show ?thesis by (simp add: squareONB_def)
next
  case False
  with assms have "i \<in> set [0..<m - 1]" by simp
  then have "store_loop (\<lambda>i. i) (\<lambda>i. a ! (i + 1)) [0..<m - 1] ((replicate m False)[m - 1 := a ! 0]) ! i
        = a ! (i + 1)"
    using store_loop_nth [of "\<lambda>i. i" "[0..<m - 1]" i _ "\<lambda>i. a ! (i + 1)"] assms by simp
  with False show ?thesis by (simp add: squareONB_def)
qed

lemma mod_shift_inj:
  assumes "x < n" "y < n" "(x + k) mod n = (y + k) mod n"
  shows "x = (y::nat)"
proof -
  have aux: "a = b" if "a \<le> b" "b < n" "(a + k) mod n = (b + k) mod n" for a b :: nat
  proof -
    from that have "n dvd (b + k) - (a + k)"
      using mod_eq_dvd_iff_nat [of "a + k" "b + k" n] by simp
    then have "n dvd b - a" by simp
    with that show ?thesis
      by (metis dvd_imp_le less_imp_diff_less not_le diff_is_0_eq le_antisym zero_less_diff linorder_not_less)
  qed
  show ?thesis
  proof (cases "x \<le> y")
    case True with assms aux show ?thesis by blast
  next
    case False with assms aux [of y x] show ?thesis by simp
  qed
qed

lemma cyclicLeftShift_nth:
  assumes "length a = m" and "i < m"
  shows "cyclicLeftShift a k ! ((i + k) mod m) = a ! i"
proof -
  have inj: "inj_on (\<lambda>i. (i + k) mod m) (set [0..<m])"
  proof (rule inj_onI)
    fix x y assume "x \<in> set [0..<m]" "y \<in> set [0..<m]" "(x + k) mod m = (y + k) mod m"
    then show "x = y" using mod_shift_inj [of x m y k] by simp
  qed
  have "store_loop (\<lambda>i. (i + k) mod m) (\<lambda>i. a ! i) [0..<m] (replicate m False) ! ((i + k) mod m) = a ! i"
    using store_loop_nth [OF inj, of i "replicate m False" "\<lambda>i. a ! i"] assms by simp
  with assms show ?thesis by (simp add: cyclicLeftShift_def Let_def)
qed

lemma rev_upt_nth: "k < n \<Longrightarrow> rev [0..<n] ! k = n - 1 - k"
  by (simp add: rev_nth)

lemma start_index_small:
  assumes "len \<le> 2 ^ 31"
  shows "nat (start_index len + 1) = len"
proof (cases "len = 0")
  case True
  have "(- 1 :: int) mod 2 ^ 32 = 2 ^ 32 - 1" by simp
  with True show ?thesis by (simp add: start_index_def)
next
  case False
  with assms have "0 \<le> int len - 1" "int len - 1 < 2 ^ 31" by simp_all
  moreover from this have "(int len - 1) mod 2 ^ 32 = int len - 1" by simp
  ultimately show ?thesis by (simp add: start_index_def Let_def)
qed

lemma GF2mElement_of_string_small:
  assumes "length s \<le> 2 ^ 31"
  shows "GF2mElement_of_string s
           = GF2mElement (map (\<lambda>i. s ! i = CHR ''1'') (rev [0..<length s]))"
  by (simp only: GF2mElement_of_string_def start_index_small [OF assms])

lemma start_index_wraps: "start_index (2 ^ 31 + 1) = - (2 ^ 31)"
  by (simp add: start_index_def)

text \<open>Beyond \<open>2 ^ 31\<close> characters the narrowed index goes wrong: at \<open>2 ^ 31 + 1\<close>
  characters it is negative, the loop does not run and every coefficient is false.\<close>

lemma GF2mElement_of_string_wraps:
  assumes "length s = 2 ^ 31 + 1"
  shows "GF2mElement_of_string s = zero"
proof -
  have "nat (start_index (length s) + 1) = 0"
    unfolding assms start_index_wraps by simp
  then show ?thesis
    by (simp add: GF2mElement_of_string_def zero_def GF2mElement_def resize_def)
qed

lemma length_GF2mElement_of_string [simp]: "length (GF2mElement_of_string s) = m"
  by (simp add: GF2mElement_of_string_def)

lemma GF2mElement_of_string_nth:
  assumes "i < m" and "length s \<le> 2 ^ 31"
  shows "GF2mElement_of_string s ! i = (i < length s \<and> s ! (length s - 1 - i) = CHR ''1'')"
proof (cases "i < length s")
  case True
  then show ?thesis using assms(1)
    by (simp add: GF2mElement_of_string_small [OF assms(2)] GF2mElement_def resize_def
          nth_append rev_nth)
next
  case False
  then show ?thesis using assms(1)
    by (simp add: GF2mElement_of_string_small [OF assms(2)] GF2mElement_def resize_def
          nth_append)
qed

section \<open>Construction and serialization\<close>

text \<open>Claim C8: for every bit string \<open>s\<close> of exactly 233 characters drawn from \<open>'0'\<close> and
  \<open>'1'\<close>, serializing the element constructed from \<open>s\<close> gives back \<open>s\<close>.\<close>

theorem serialize_construct_roundtrip:
  assumes "length s = m" and "set s \<subseteq> {CHR ''0'', CHR ''1''}"
  shows "serialize (GF2mElement_of_string s) = s"
proof (rule nth_equalityI)
  show "length (serialize (GF2mElement_of_string s)) = length s"
    using assms by (simp add: serialize_def)
next
  fix k assume "k < length (serialize (GF2mElement_of_string s))"
  then have k: "k < m" by (simp add: serialize_def)
  have small: "length s \<le> 2 ^ 31" using assms(1) by (simp add: m_def)
  from k assms have "s ! k \<in> {CHR ''0'', CHR ''1''}"
    by (metis nth_mem subsetD)
  moreover have "m - 1 - (m - 1 - k) = k" using k by simp
  moreover have "m - 1 - k < m" by simp
  ultimately show "serialize (GF2mElement_of_string s) ! k = s ! k"
    using k assms(1) GF2mElement_of_string_nth [OF \<open>m - 1 - k < m\<close> small]
    by (auto simp: serialize_def rev_nth)
qed

text \<open>The round trip at the string of 232 zeros followed by a one.\<close>

theorem serialize_construct_roundtrip_witness:
  "length (replicate 232 CHR ''0'' @ ''1'') = m
   \<and> set (replicate 232 CHR ''0'' @ ''1'') \<subseteq> {CHR ''0'', CHR ''1''}
   \<and> serialize (GF2mElement_of_string (replicate 232 CHR ''0'' @ ''1'')) = replicate 232 CHR ''0'' @ ''1''"
  using serialize_construct_roundtrip [of "replicate 232 CHR ''0'' @ ''1''"]
  by (simp add: m_def)

lemma GF2mElement_of_string_truncates:
  assumes "length s = m" and "length (pre @ s) \<le> 2 ^ 31"
  shows "GF2mElement_of_string (pre @ s) = GF2mElement_of_string s"
proof (rule nth_equalityI)
  show "length (GF2mElement_of_string (pre @ s)) = length (GF2mElement_of_string s)"
    by simp
next
  fix i assume "i < length (GF2mElement_of_string (pre @ s))"
  then have i: "i < m" by simp
  from assms have small: "length s \<le> 2 ^ 31" by simp
  from i assms(1) have "length (pre @ s) - 1 - i = length pre + (length s - 1 - i)"
    by simp
  then have "(pre @ s) ! (length (pre @ s) - 1 - i) = s ! (length s - 1 - i)"
    by (simp only: nth_append_length_plus)
  with i assms(1) show "GF2mElement_of_string (pre @ s) ! i = GF2mElement_of_string s ! i"
    by (simp add: GF2mElement_of_string_nth [OF i assms(2)] GF2mElement_of_string_nth [OF i small])
qed

text \<open>Claim C6 says that a string with a character other than \<open>'0'\<close>/\<open>'1'\<close>, or longer
  than 233 characters, is rejected. The constructor has no failing branch: the string
  \<open>"2"\<close> builds the same element as \<open>"0"\<close>, and a string of 234 characters builds the
  same element as its last 233 characters.\<close>

theorem construct_2_counter:
  "GF2mElement_of_string ''2'' = GF2mElement_of_string ''0''
   \<and> GF2mElement_of_string (CHR ''1'' # replicate 233 CHR ''0'') = GF2mElement_of_string (replicate 233 CHR ''0'')"
proof
  have "GF2mElement_of_string ''2'' = GF2mElement (map (\<lambda>i. ''2'' ! i = CHR ''1'') (rev [0..<length ''2'']))"
    by (rule GF2mElement_of_string_small) simp
  moreover
  have "GF2mElement_of_string ''0'' = GF2mElement (map (\<lambda>i. ''0'' ! i = CHR ''1'') (rev [0..<length ''0'']))"
    by (rule GF2mElement_of_string_small) simp
  ultimately show "GF2mElement_of_string ''2'' = GF2mElement_of_string ''0''"
    by simp
  show "GF2mElement_of_string (CHR ''1'' # replicate 233 CHR ''0'') = GF2mElement_of_string (replicate 233 CHR ''0'')"
    using GF2mElement_of_string_truncates [of "replicate 233 CHR ''0''" "''1''"]
    by (simp add: m_def)
qed

text \<open>Claim C6 as amended: the constructor accepts every string and always returns an
  element of 233 coefficients; for a string of at most \<open>2 ^ 31\<close> characters, coefficient \<open>i\<close>
  is set exactly when the string has a character at distance \<open>i\<close> from its right end and
  that character is \<open>'1'\<close>. Every other character reads as a zero coefficient, and
  characters further than 233 from the right end are dropped.\<close>

theorem construct_total:
  "length (GF2mElement_of_string s) = m
   \<and> (length s \<le> 2 ^ 31 \<longrightarrow>
       (\<forall>i<m. GF2mElement_of_string s ! i
                  = (i < length s \<and> s ! (length s - 1 - i) = CHR ''1'')))"
  by (simp add: GF2mElement_of_string_nth)

text \<open>The string \<open>"2x1"\<close>: coefficient 0 is set, coefficient 2 (from \<open>'2'\<close>) is not.\<close>

theorem construct_total_witness:
  "length (GF2mElement_of_string ''2x1'') = m \<and> length ''2x1'' \<le> 2 ^ 31 \<and> (0::nat) < m
   \<and> GF2mElement_of_string ''2x1'' ! 0 \<and> (2::nat) < m \<and> \<not> GF2mElement_of_string ''2x1'' ! 2"
  using construct_total [of "''2x1''"] by (simp add: m_def)

section \<open>Squaring and the cyclic shift\<close>

lemma squareONB_eq_shift:
  assumes "length a = m"
  shows "squareONB a = cyclicLeftShift a (m - 1)"
proof (rule nth_equalityI)
  show "length (squareONB a) = length (cyclicLeftShift a (m - 1))" by simp
next
  fix i assume "i < length (squareONB a)"
  then have i: "i < m" by simp
  show "squareONB a ! i = cyclicLeftShift a (m - 1) ! i"
  proof (cases "i = m - 1")
    case True
    then have "(0 + (m - 1)) mod m = i" by simp
    then show ?thesis
      using cyclicLeftShift_nth [OF assms, of 0 "m - 1"] squareONB_nth [OF i, of a] True by simp
  next
    case False
    with i have "(i + 1 + (m - 1)) mod m = i" by simp
    then show ?thesis
      using cyclicLeftShift_nth [OF assms, of "i + 1" "m - 1"] squareONB_nth [OF i, of a] False i
      by simp
  qed
qed

lemma shift_squareONB:
  assumes "length a = m"
  shows "cyclicLeftShift (squareONB a) 1 = a"
proof (rule nth_equalityI)
  show "length (cyclicLeftShift (squareONB a) 1) = length a" using assms by simp
next
  fix i assume "i < length (cyclicLeftShift (squareONB a) 1)"
  then have i: "i < m" by simp
  show "cyclicLeftShift (squareONB a) 1 ! i = a ! i"
  proof (cases "i = 0")
    case True
    have "(m - 1 + 1) mod m = 0" by simp
    then show ?thesis
      using cyclicLeftShift_nth [of "squareONB a" "m - 1" 1] squareONB_nth [of "m - 1" a] True
      by simp
  next
    case False
    with i have "(i - 1 + 1) mod m = i" "i - 1 < m" "i - 1 \<noteq> m - 1" by simp_all
    then show ?thesis
      using cyclicLeftShift_nth [of "squareONB a" "i - 1" 1] squareONB_nth [of "i - 1" a] False
      by simp
  qed
qed

text \<open>Claim C9 says \<open>squareONB a = cyclicLeftShift a 1\<close> for every element. The two
  rotate in opposite directions: on the element with only coefficient 0 set, squaring
  sets coefficient 232 and the shift by one sets coefficient 1.\<close>

theorem squareONB_not_shift1: "squareONB e0 \<noteq> cyclicLeftShift e0 1"
proof
  assume eq: "squareONB e0 = cyclicLeftShift e0 1"
  have len: "length e0 = m" by (simp add: e0_def m_def)
  have "cyclicLeftShift e0 1 ! ((0 + 1) mod m) = e0 ! 0"
    by (rule cyclicLeftShift_nth [OF len]) simp
  then have "cyclicLeftShift e0 1 ! 1" by (simp add: e0_def m_def)
  moreover have "squareONB e0 ! 1 = e0 ! 2"
    using squareONB_nth [of 1 e0] by (simp add: m_def numeral_2_eq_2)
  then have "\<not> squareONB e0 ! 1" by (simp add: e0_def numeral_2_eq_2)
  ultimately show False using eq by simp
qed

text \<open>Claim C9 as amended: for every element \<open>a\<close>, \<open>squareONB a\<close> equals
  \<open>cyclicLeftShift a 232\<close> (the shift by \<open>m - 1\<close> positions), and it undoes the shift by
  one position rather than equalling it.\<close>

theorem squareONB_is_shift_232:
  assumes "length a = m"
  shows "squareONB a = cyclicLeftShift a 232 \<and> cyclicLeftShift (squareONB a) 1 = a"
  using squareONB_eq_shift [OF assms] shift_squareONB [OF assms] by (simp add: m_def)

theorem squareONB_is_shift_232_witness:
  "length e0 = m \<and> squareONB e0 = cyclicLeftShift e0 232 \<and> cyclicLeftShift (squareONB e0) 1 = e0"
proof -
  have len: "length e0 = m" by (simp add: e0_def m_def)
  show ?thesis using len squareONB_is_shift_232 [OF len] by blast
qed

section \<open>The matrix entry\<close>

lemma smod_if: "(x::int) smod 467 = (if 0 \<le> x then x mod 467 else - ((- x) mod 467))"
  by (simp add: signed_modulo_int_def sgn_if)

lemma pow_loop_eq:
  "0 \<le> r \<Longrightarrow> r < 467 \<Longrightarrow> pow_loop n 467 r = (r * 2 ^ n) mod 467"
proof (induction n arbitrary: r)
  case 0
  then show ?case by simp
next
  case (Suc n)
  have "pow_loop (Suc n) 467 r = pow_loop n 467 ((r * 2) mod 467)"
    using Suc.prems by (simp add: smod_if)
  also have "\<dots> = ((r * 2) mod 467 * 2 ^ n) mod 467"
    by (rule Suc.IH) simp_all
  also have "\<dots> = (r * 2 ^ Suc n) mod 467"
    by (simp add: mod_mult_left_eq mult.assoc)
  finally show ?case .
qed

lemma pow2_eq: "pow2 e = 2 ^ e mod 467"
  using pow_loop_eq [of 1 e] by (simp add: pow2_def p_def)

lemma pow2_range: "0 \<le> pow2 e" "pow2 e < 467"
  by (simp_all add: pow2_eq)

lemma cache_ok_empty: "cache_ok Map.empty"
  by (simp add: cache_ok_def)

lemma mod_pow_2_pure:
  assumes "cache_ok c"
  shows "fst (mod_pow_2 (int e) p c) = pow2 e" and "cache_ok (snd (mod_pow_2 (int e) p c))"
proof -
  have "r = pow2 e" if "c (int e) = Some r" for r
    using assms that unfolding cache_ok_def by (metis nat_int)
  then show "fst (mod_pow_2 (int e) p c) = pow2 e"
    by (simp add: mod_pow_2_def pow2_def Let_def split: option.splits)
  show "cache_ok (snd (mod_pow_2 (int e) p c))"
    using assms
    by (auto simp: mod_pow_2_def cache_ok_def pow2_def Let_def split: option.splits)
qed

lemma compute_matrix_element_pure:
  assumes "cache_ok c"
  shows "fst (compute_matrix_element (int i) (int j) c) = (if entry i j then 1 else 0)"
    and "cache_ok (snd (compute_matrix_element (int i) (int j) c))"
proof -
  obtain pow_i c1 where 1: "mod_pow_2 (int i) p c = (pow_i, c1)" by force
  obtain pow_j c2 where 2: "mod_pow_2 (int j) p c1 = (pow_j, c2)" by force
  from 1 mod_pow_2_pure [OF assms, of i] have i: "pow_i = pow2 i" "cache_ok c1" by simp_all
  from 2 mod_pow_2_pure [OF i(2), of j] have j: "pow_j = pow2 j" "cache_ok c2" by simp_all
  show "fst (compute_matrix_element (int i) (int j) c) = (if entry i j then 1 else 0)"
    using 1 2 i j by (simp add: compute_matrix_element_def entry_def match_test_def Let_def)
  show "cache_ok (snd (compute_matrix_element (int i) (int j) c))"
    using 1 2 i j by (simp add: compute_matrix_element_def Let_def)
qed

lemma mod_467_neg: "(x::int) mod 467 = 466 \<longleftrightarrow> (- x) mod 467 = 1"
  by (auto simp: zmod_zminus1_eq_if)

lemma mod_467_shift: "((x::int) + 467) mod 467 = x mod 467"
  by simp

lemma smod4:
  assumes "0 \<le> u" "u < 467" "0 \<le> v" "v < 467"
  shows "((- u - v + 467) smod 467 = 1 \<or> (- u - v + 467) smod 467 = - 466)
            \<longleftrightarrow> (- u - v) mod (467::int) = 1"
proof (cases "0 \<le> - u - v + 467")
  case True
  then have "(- u - v + 467) smod 467 = (- u - v) mod 467"
    using mod_467_shift [of "- u - v"] by (simp add: smod_if)
  moreover have "(- u - v) mod 467 \<noteq> - 466"
    using pos_mod_sign [of 467 "- u - v"] by linarith
  ultimately show ?thesis by simp
next
  case False
  define w where "w = u + v - 467"
  have w: "0 < w" "w < 467" "- u - v + 467 = - w" "- u - v = - (w + 467)"
    using False assms by (simp_all add: w_def)
  have "(- w) smod 467 = - (w mod 467)"
    using w(1) by (simp add: smod_if)
  also have "w mod 467 = w" using w by simp
  finally have l: "(- u - v + 467) smod 467 = - w" using w(3) by simp
  have "(w + 467) mod 467 = w" using w by simp
  then have r: "(- u - v) mod 467 = 467 - w"
    unfolding w(4) using w(1,2) by (simp add: zmod_zminus1_eq_if)
  show ?thesis unfolding l r using w by linarith
qed

lemma match_test_iff1:
  assumes "0 \<le> u" "u < 467" "0 \<le> v" "v < 467"
  shows "match_test u v \<longleftrightarrow>
      ((u + v) mod 467 = 1 \<or> (u - v) mod 467 = 1 \<or> (- u + v) mod 467 = 1 \<or> (- u - v) mod 467 = 1)"
proof -
  have 1: "(u + v) smod 467 = (u + v) mod 467"
    using assms by (simp add: smod_if)
  have 2: "(u - v + 467) smod 467 = (u - v) mod 467"
    using assms mod_467_shift [of "u - v"] by (simp add: smod_if)
  have 3: "(- u + v + 467) smod 467 = (- u + v) mod 467"
    using assms mod_467_shift [of "- u + v"] by (simp add: smod_if)
  note 4 = smod4 [OF assms]
  have n1: "(u + v) mod 467 \<noteq> - 466"
    using pos_mod_sign [of 467 "u + v"] by linarith
  have n2: "(u - v) mod 467 \<noteq> - 466"
    using pos_mod_sign [of 467 "u - v"] by linarith
  have n3: "(- u + v) mod 467 \<noteq> - 466"
    using pos_mod_sign [of 467 "- u + v"] by linarith
  have "match_test u v \<longleftrightarrow>
      (((u + v) smod 467 = 1 \<or> (u + v) smod 467 = - 466)
       \<or> ((u - v + 467) smod 467 = 1 \<or> (u - v + 467) smod 467 = - 466)
       \<or> ((- u + v + 467) smod 467 = 1 \<or> (- u + v + 467) smod 467 = - 466)
       \<or> ((- u - v + 467) smod 467 = 1 \<or> (- u - v + 467) smod 467 = - 466))"
    unfolding match_test_def p_def list_ex_Cons_iff list_ex_Nil_iff by blast
  also have "\<dots> \<longleftrightarrow>
      ((u + v) mod 467 = 1 \<or> (u - v) mod 467 = 1 \<or> (- u + v) mod 467 = 1 \<or> (- u - v) mod 467 = 1)"
    unfolding 1 2 3 4 using n1 n2 n3 by blast
  finally show ?thesis .
qed

lemma match_test_iff:
  assumes "0 \<le> u" "u < 467" "0 \<le> v" "v < 467"
  shows "match_test u v \<longleftrightarrow>
     (\<exists>x \<in> {u + v, u - v, - u + v, - u - v}. x mod 467 = 1 \<or> x mod 467 = 466)"
proof -
  have "- (u + v) = - u - v" "- (u - v) = - u + v" "- (- u + v) = u - v" "- (- u - v) = u + v"
    by simp_all
  then have a: "(u + v) mod 467 = 466 \<longleftrightarrow> (- u - v) mod 467 = 1"
    and b: "(u - v) mod 467 = 466 \<longleftrightarrow> (- u + v) mod 467 = 1"
    and c: "(- u + v) mod 467 = 466 \<longleftrightarrow> (u - v) mod 467 = 1"
    and d: "(- u - v) mod 467 = 466 \<longleftrightarrow> (u + v) mod 467 = 1"
    using mod_467_neg [of "u + v"] mod_467_neg [of "u - v"] mod_467_neg [of "- u + v"]
      mod_467_neg [of "- u - v"] by (simp_all only:)
  have e: "(\<exists>x \<in> {u + v, u - v, - u + v, - u - v}. Q x)
            \<longleftrightarrow> Q (u + v) \<or> Q (u - v) \<or> Q (- u + v) \<or> Q (- u - v)" for Q
    by blast
  show ?thesis
    unfolding match_test_iff1 [OF assms] e using a b c d by blast
qed

text \<open>Claim C4: with \<open>u = 2 ^ i mod 467\<close> and \<open>v = 2 ^ j mod 467\<close>, the matrix entry is 1
  exactly when one of \<open>u + v\<close>, \<open>u - v\<close>, \<open>- u + v\<close>, \<open>- u - v\<close> is congruent to 1 or to
  466 modulo 467, and 0 otherwise. It holds from every state of the cache that the program
  can reach, and for all exponents, in particular for \<open>i, j\<close> in \<open>0..232\<close>.\<close>

theorem compute_matrix_element_spec:
  assumes "cache_ok c"
  shows "fst (compute_matrix_element (int i) (int j) c) =
     (let u = 2 ^ i mod 467; v = 2 ^ j mod (467::int)
      in if \<exists>x \<in> {u + v, u - v, - u + v, - u - v}. x mod 467 = 1 \<or> x mod 467 = 466
         then 1 else 0)"
  using compute_matrix_element_pure(1) [OF assms, of i j]
    match_test_iff [OF pow2_range pow2_range, of i j]
  by (simp only: entry_def pow2_eq Let_def)

text \<open>From the empty cache, the entry at row 0, column 1 is 1.\<close>

theorem compute_matrix_element_spec_witness:
  "cache_ok Map.empty \<and> fst (compute_matrix_element (int 0) (int 1) Map.empty) = 1"
  using compute_matrix_element_spec [OF cache_ok_empty, of 0 1] cache_ok_empty
  by (simp add: Let_def)

section \<open>The matrix scan\<close>

lemma scan_row_pure:
  assumes "cache_ok c" and "prevVal < 2"
  shows "fst (scan_row i js prevVal one_positions c)
           = one_positions @ map (Pair i) (take (2 - prevVal) (filter (entry i) js))
         \<and> cache_ok (snd (scan_row i js prevVal one_positions c))"
  using assms
proof (induction js arbitrary: prevVal one_positions c)
  case Nil
  then show ?case by simp
next
  case (Cons j js)
  obtain e c' where step: "compute_matrix_element (int i) (int j) c = (e, c')" by force
  with compute_matrix_element_pure [OF Cons.prems(1), of i j]
  have e: "e = (if entry i j then 1 else 0)" and c': "cache_ok c'" by simp_all
  show ?case
  proof (cases "entry i j")
    case False
    with e step Cons.IH [OF c' Cons.prems(2)] show ?thesis by simp
  next
    case True
    show ?thesis
    proof (cases "prevVal = 0")
      case True
      have "Suc 0 < 2" by simp
      from Cons.IH [OF c' this, of "one_positions @ [(i, j)]"] True \<open>entry i j\<close> e step
      show ?thesis by (simp add: numeral_2_eq_2)
    next
      case False
      with Cons.prems(2) have "prevVal = 1" by simp
      with \<open>entry i j\<close> e step c' show ?thesis by simp
    qed
  qed
qed

lemma scan_rows_pure:
  assumes "cache_ok c"
  shows "fst (scan_rows is one_positions c)
           = one_positions @ concat (map (\<lambda>i. map (Pair i) (row i)) is)
         \<and> cache_ok (snd (scan_rows is one_positions c))"
  using assms
proof (induction "is" arbitrary: one_positions c)
  case Nil
  then show ?case by simp
next
  case (Cons i "is")
  obtain ops' c' where step: "scan_row i [0..<m] 0 one_positions c = (ops', c')" by force
  with scan_row_pure [OF Cons.prems, of 0 i "[0..<m]" one_positions]
  have "ops' = one_positions @ map (Pair i) (row i)" and "cache_ok c'"
    by (simp_all add: row_def)
  with Cons.IH [of c' ops'] step show ?case by simp
qed

lemma createMultiplicativeMatrix_pure:
  assumes "cache_ok c"
  shows "fst (createMultiplicativeMatrix c) = matrix"
    and "cache_ok (snd (createMultiplicativeMatrix c))"
  using scan_rows_pure [OF assms, of "[0..<m]" "[]"]
  by (simp_all add: createMultiplicativeMatrix_def matrix_def)

section \<open>Powers of two modulo 467\<close>

lemma of_int_467_eq_iff: "(of_int x :: 467) = of_int y \<longleftrightarrow> x mod 467 = y mod 467"
proof
  assume "(of_int x :: 467) = of_int y"
  then have "Rep_bit1 (of_int x :: 467) = Rep_bit1 (of_int y :: 467)" by simp
  then show "x mod 467 = y mod 467"
    by (simp add: bit1.of_int_eq Abs_bit1_inverse)
next
  assume "x mod 467 = y mod 467"
  then show "(of_int x :: 467) = of_int y"
    by (simp add: bit1.of_int_eq)
qed

lemma of_int_467_mod: "(of_int (x mod 467) :: 467) = of_int x"
  by (simp add: of_int_467_eq_iff)

lemma g_pow2: "g s = of_int (pow2 s)"
  by (simp add: g_def pow2_eq of_int_467_mod)

lemma pow_table_eq: "pow_table n r = map (\<lambda>s. pow_loop s p r) [0..<n]"
proof (induction n arbitrary: r)
  case 0
  then show ?case by simp
next
  case (Suc n)
  have "map (\<lambda>s. pow_loop s p r) [0..<Suc n] = r # map (\<lambda>s. pow_loop (Suc s) p r) [0..<n]"
    by (simp add: upt_conv_Cons map_Suc_upt [symmetric] del: upt_Suc)
  with Suc.IH [of "(r * 2) smod p"] show ?case by simp
qed

lemma pow_table_233: "list_all (\<lambda>v. v \<noteq> 1 \<and> v \<noteq> 466) (tl (pow_table 233 1))"
  by code_simp

lemma pow2_233: "pow2 233 = 466"
  unfolding pow2_def by code_simp

lemma g_0 [simp]: "g 0 = 1"
  by (simp add: g_def)

lemma g_add: "g (s + t) = g s * g t"
  by (simp add: g_def power_add)

lemma g_Suc: "g (Suc s) = 2 * g s"
  by (simp add: g_def)

lemma two_inv: "(2::467) * 234 = 1"
proof -
  have "(of_int (2 * 234) :: 467) = of_int 1"
    unfolding of_int_467_eq_iff by simp
  then show ?thesis by simp
qed

lemma g_unit: "g s * 234 ^ s = 1"
  by (simp only: g_def power_mult_distrib [symmetric] two_inv power_one)

lemma g_cancel: "g s * x = g s * y \<Longrightarrow> x = y"
proof -
  assume "g s * x = g s * y"
  then have "234 ^ s * (g s * x) = 234 ^ s * (g s * y)" by simp
  then have "(g s * 234 ^ s) * x = (g s * 234 ^ s) * y" by (simp only: ac_simps)
  then show "x = y" by (simp add: g_unit)
qed

lemma g_nonzero [simp]: "g s \<noteq> 0"
  using g_unit [of s] by auto

lemma g_233: "g 233 = - 1"
proof -
  have "(of_int 466 :: 467) = of_int (- 1)"
    unfolding of_int_467_eq_iff by simp
  then show ?thesis by (simp add: g_pow2 pow2_233)
qed

lemma g_not_pm1:
  assumes "0 < s" "s < 233"
  shows "g s \<noteq> 1" "g s \<noteq> - 1"
proof -
  have "tl (pow_table 233 1) = map pow2 [1..<233]"
    by (simp add: pow_table_eq pow2_def map_tl [symmetric] del: upt_Suc upt_rec_numeral)
  with pow_table_233 have "\<forall>v\<in>set (map pow2 [1..<233]). v \<noteq> 1 \<and> v \<noteq> 466"
    by (simp only: list_all_iff)
  with assms have ne: "pow2 s \<noteq> 1" "pow2 s \<noteq> 466" by auto
  have "g s = 1 \<longleftrightarrow> pow2 s mod 467 = 1 mod 467"
    using of_int_467_eq_iff [of "pow2 s" 1] by (simp add: g_pow2)
  with ne pow2_range [of s] show "g s \<noteq> 1" by simp
  have "g s = - 1 \<longleftrightarrow> pow2 s mod 467 = (- 1) mod 467"
    using of_int_467_eq_iff [of "pow2 s" "- 1"] by (simp add: g_pow2)
  with ne pow2_range [of s] show "g s \<noteq> - 1" by simp
qed

lemma two_cancel: "(2::467) * x = 0 \<Longrightarrow> x = 0"
proof -
  assume "(2::467) * x = 0"
  then have "234 * (2 * x) = 0" by simp
  then have "(2 * 234) * x = 0" by (simp only: ac_simps)
  then show "x = 0" by (simp only: two_inv mult_1)
qed

lemma g_neq_neg: "g s \<noteq> - g t \<or> s \<noteq> t"
proof (cases "s = t")
  case True
  have "g s \<noteq> - g s"
  proof
    assume a: "g s = - g s"
    have "2 * g s = g s + g s" by (simp only: mult_2)
    also have "\<dots> = g s + - g s" by (rule arg_cong [where f = "\<lambda>x. g s + x", OF a])
    also have "\<dots> = 0" by simp
    finally show False using two_cancel [of "g s"] by simp
  qed
  with True show ?thesis by simp
next
  case False
  then show ?thesis by simp
qed

lemma g_inj_le:
  assumes "s \<le> t" "t < 233" "g s = g t \<or> g s = - g t"
  shows "s = t"
proof (rule ccontr)
  assume "s \<noteq> t"
  with assms have d: "0 < t - s" "t - s < 233" by simp_all
  have t: "g t = g s * g (t - s)"
    using assms(1) g_add [of s "t - s"] by simp
  from assms(3) have "g (t - s) = 1 \<or> g (t - s) = - 1"
  proof
    assume "g s = g t"
    then have "g s * 1 = g s * g (t - s)" using t by simp
    then show ?thesis using g_cancel by metis
  next
    assume "g s = - g t"
    then have "- g s = g t" by simp
    then have "g s * (- 1) = g s * g (t - s)" using t by simp
    then show ?thesis using g_cancel by metis
  qed
  with g_not_pm1 [OF d] show False by blast
qed

lemma g_inj:
  assumes "s < 233" "t < 233" "g s = g t \<or> g s = - g t"
  shows "s = t"
proof (cases "s \<le> t")
  case True
  with assms g_inj_le show ?thesis by blast
next
  case False
  then have "t \<le> s" by simp
  moreover from assms(3) have "g t = g s \<or> g t = - g s" by auto
  ultimately show ?thesis using g_inj_le [of t s] assms(1) by simp
qed

lemma card_467: "CARD(467) = 467"
  by simp

lemma card_nonzero_467: "card (UNIV - {0::467}) = 466"
  using card_Diff_singleton [of "0::467" UNIV] by (simp only: card_467 UNIV_I)

lemma g_surj:
  assumes "k \<noteq> 0"
  shows "\<exists>s<233. k = g s \<or> k = - g s"
proof -
  let ?I = "{0..<233::nat}"
  let ?P = "g ` ?I" and ?N = "(\<lambda>s. - g s) ` ?I"
  have injP: "inj_on g ?I"
    by (rule inj_onI) (use g_inj in auto)
  have injN: "inj_on (\<lambda>s. - g s) ?I"
    by (rule inj_onI) (use g_inj in auto)
  have disj: "?P \<inter> ?N = {}"
  proof (rule ccontr)
    assume "?P \<inter> ?N \<noteq> {}"
    then obtain s t where st: "s < 233" "t < 233" "g s = - g t" by auto
    with g_inj [of s t] have "s = t" by simp
    with st(3) g_neq_neg [of s t] show False by simp
  qed
  have "card (?P \<union> ?N) = card ?P + card ?N"
    by (rule card_Un_disjoint) (simp_all add: disj)
  also have "\<dots> = 466"
    by (simp add: card_image injP injN)
  finally have c: "card (?P \<union> ?N) = 466" .
  have sub: "?P \<union> ?N \<subseteq> UNIV - {0}" by auto
  from c card_nonzero_467 have "card (UNIV - {0::467}) \<le> card (?P \<union> ?N)" by simp
  with sub have "?P \<union> ?N = UNIV - {0}"
    by (intro card_seteq) simp_all
  with assms have "k \<in> ?P \<union> ?N" by blast
  then obtain s where "s \<in> ?I" and "k = g s \<or> k = - g s"
    by blast
  moreover from this have "s < 233"
    by (simp only: atLeastLessThan_iff)
  ultimately show ?thesis by blast
qed

lemma of_int_467_eq_1: "(of_int x :: 467) = 1 \<longleftrightarrow> x mod 467 = 1"
  using of_int_467_eq_iff [of x 1] by simp

lemma entry_iff:
  "entry i j \<longleftrightarrow> g i + g j = 1 \<or> g i - g j = 1 \<or> - g i + g j = 1 \<or> - g i - g j = 1"
  unfolding entry_def match_test_iff1 [OF pow2_range pow2_range] g_pow2
    of_int_467_eq_1 [symmetric]
  by simp

lemma pm_refl [simp]: "pm x x"
  by (simp add: pm_def)

lemma pm_sym: "pm x y \<Longrightarrow> pm y x"
  by (auto simp: pm_def)

lemma pm_trans: "pm x y \<Longrightarrow> pm y z \<Longrightarrow> pm x z"
  by (auto simp: pm_def)

lemma pm_minus [simp]: "pm (- x) y \<longleftrightarrow> pm x y" "pm x (- y) \<longleftrightarrow> pm x y"
  by (auto simp: pm_def)

lemma pm_zero [simp]: "pm x 0 \<longleftrightarrow> x = 0" "pm 0 x \<longleftrightarrow> x = 0"
  by (auto simp: pm_def)

lemma neg_diff_eq_1: "- x - y = 1 \<longleftrightarrow> y = - (1 + x)" for x y :: "'a::ring_1"
proof
  assume "- x - y = 1"
  then have "- x = 1 + y" by (simp only: diff_eq_eq)
  then have "x = - (1 + y)" by (simp only: minus_equation_iff [of x])
  then show "y = - (1 + x)" by simp
next
  assume "y = - (1 + x)"
  then show "- x - y = 1" by simp
qed

lemma entry_pm: "entry i j \<longleftrightarrow> pm (g j) (1 - g i) \<or> pm (g j) (1 + g i)"
proof -
  have "g i + g j = 1 \<longleftrightarrow> g j = 1 - g i" by (auto simp: algebra_simps)
  moreover have "g i - g j = 1 \<longleftrightarrow> g j = - (1 - g i)" by (auto simp: algebra_simps)
  moreover have "- g i + g j = 1 \<longleftrightarrow> g j = 1 + g i" by (auto simp: algebra_simps)
  moreover have "- g i - g j = 1 \<longleftrightarrow> g j = - (1 + g i)"
    by (rule neg_diff_eq_1)
  ultimately show ?thesis
    unfolding entry_iff pm_def by blast
qed

lemma dlog_props:
  assumes "k \<noteq> 0"
  shows "dlog k < 233" and "pm k (g (dlog k))"
proof -
  from g_surj [OF assms] obtain s where s: "s < 233" "pm k (g s)"
    by (auto simp: pm_def)
  have "\<exists>!s. s < 233 \<and> pm k (g s)"
  proof (rule ex1I [of _ s])
    show "s < 233 \<and> pm k (g s)" using s by simp
  next
    fix t assume t: "t < 233 \<and> pm k (g t)"
    with s(2) have "pm (g t) (g s)" using pm_sym pm_trans by blast
    with t s(1) show "t = s" using g_inj [of t s] by (simp add: pm_def)
  qed
  from theI' [OF this] show "dlog k < 233" and "pm k (g (dlog k))"
    by (simp_all add: dlog_def)
qed

lemma dlog_unique:
  assumes "s < 233" "pm k (g s)"
  shows "dlog k = s"
proof -
  from assms(2) have "k \<noteq> 0" by (auto simp: pm_def)
  from dlog_props [OF this] assms have "pm (g (dlog k)) (g s)" "dlog k < 233"
    using pm_sym pm_trans by blast+
  with assms(1) show ?thesis using g_inj [of "dlog k" s] by (simp add: pm_def)
qed

lemma pm_g_iff:
  assumes "k \<noteq> 0" "j < 233"
  shows "pm (g j) k \<longleftrightarrow> j = dlog k"
proof
  assume "pm (g j) k"
  then have "pm k (g j)" by (rule pm_sym)
  with assms(2) show "j = dlog k" using dlog_unique [of j k] by simp
next
  assume "j = dlog k"
  with dlog_props(2) [OF assms(1)] show "pm (g j) k" using pm_sym by simp
qed

section \<open>The rows of the matrix\<close>

lemma diff_eq_add_imp: "1 - x = 1 + x \<Longrightarrow> 2 * x = 0" for x :: "'a::comm_ring_1"
proof -
  assume h: "1 - x = 1 + x"
  have "2 * x = (1 + x) - (1 - x)" by (simp add: algebra_simps)
  also have "\<dots> = 0" unfolding h by simp
  finally show ?thesis .
qed

lemma diff_eq_neg_add_imp: "1 - x = - (1 + x) \<Longrightarrow> (1::'a) + 1 = 0" for x :: "'a::comm_ring_1"
proof -
  assume h: "1 - x = - (1 + x)"
  have "(1::'a) + 1 = (1 - x) + (1 + x)" by (simp add: algebra_simps)
  also have "\<dots> = 0" unfolding h by simp
  finally show ?thesis .
qed

lemma one_neq_zero_467: "(1::467) + 1 \<noteq> 0"
proof
  assume "(1::467) + 1 = 0"
  then have "2 * (1::467) = 0" by simp
  then show False using two_cancel [of 1] by simp
qed

lemma row_set_0: "{j. j < 233 \<and> entry 0 j} = {1}"
proof -
  have "(1::467) + 1 = g 1" by (simp add: g_def)
  then have "entry 0 j \<longleftrightarrow> pm (g j) (g 1)" for j
    by (simp add: entry_pm)
  moreover have "j < 233 \<and> pm (g j) (g 1) \<longleftrightarrow> j = 1" for j
    using g_inj [of j 1] by (auto simp: pm_def)
  ultimately show ?thesis by auto
qed

lemma row_set_pos:
  assumes "0 < i" "i < 233"
  shows "{j. j < 233 \<and> entry i j} = {dlog (1 - g i), dlog (1 + g i)}"
    and "dlog (1 - g i) \<noteq> dlog (1 + g i)"
proof -
  from g_not_pm1 [OF assms] have a: "1 - g i \<noteq> 0" and b: "1 + g i \<noteq> 0"
    by (auto simp: add_eq_0_iff)
  have "j < 233 \<and> entry i j \<longleftrightarrow> j = dlog (1 - g i) \<or> j = dlog (1 + g i)" for j
    using pm_g_iff [OF a, of j] pm_g_iff [OF b, of j] dlog_props(1) [OF a] dlog_props(1) [OF b]
    unfolding entry_pm by blast
  then show "{j. j < 233 \<and> entry i j} = {dlog (1 - g i), dlog (1 + g i)}"
    by blast
  show "dlog (1 - g i) \<noteq> dlog (1 + g i)"
  proof
    assume eq: "dlog (1 - g i) = dlog (1 + g i)"
    have "pm (1 - g i) (g (dlog (1 - g i)))" by (rule dlog_props(2) [OF a])
    moreover have "pm (g (dlog (1 - g i))) (1 + g i)"
      unfolding eq by (rule pm_sym [OF dlog_props(2) [OF b]])
    ultimately have "pm (1 - g i) (1 + g i)" by (rule pm_trans)
    then consider "1 - g i = 1 + g i" | "1 - g i = - (1 + g i)" by (auto simp: pm_def)
    then show False
    proof cases
      case 1
      then have "2 * g i = 0" by (rule diff_eq_add_imp)
      then show False using two_cancel [of "g i"] by simp
    next
      case 2
      then have "(1::467) + 1 = 0" by (rule diff_eq_neg_add_imp)
      then show False using one_neq_zero_467 by simp
    qed
  qed
qed

lemma filter_entry_length:
  assumes "i < m"
  shows "length (filter (entry i) [0..<m]) = (if i = 0 then 1 else 2)"
proof -
  have "length (filter (entry i) [0..<m]) = card ({j. entry i j} \<inter> set [0..<m])"
    by (rule distinct_length_filter) simp
  also have "{j. entry i j} \<inter> set [0..<m] = {j. j < 233 \<and> entry i j}"
    by (auto simp: m_def)
  also have "card \<dots> = (if i = 0 then 1 else 2)"
  proof (cases "i = 0")
    case True
    then show ?thesis by (simp add: row_set_0)
  next
    case False
    with assms have "0 < i" "i < 233" by (simp_all add: m_def)
    from row_set_pos [OF this] False show ?thesis by simp
  qed
  finally show ?thesis .
qed

lemma row_eq_filter: "i < m \<Longrightarrow> row i = filter (entry i) [0..<m]"
  using filter_entry_length [of i] by (simp add: row_def)

lemma length_row: "i < m \<Longrightarrow> length (row i) = (if i = 0 then 1 else 2)"
  using filter_entry_length [of i] by (simp add: row_eq_filter)

lemma filter_rows:
  assumes "distinct is"
  shows "filter (\<lambda>(r, c). r = i) (concat (map (\<lambda>i. map (Pair i) (f i)) is))
           = (if i \<in> set is then map (Pair i) (f i) else [])"
  using assms
proof (induction "is")
  case Nil
  then show ?case by simp
next
  case (Cons x xs)
  have "filter (\<lambda>(r, c). r = i) (map (Pair x) (f x)) = (if x = i then map (Pair x) (f x) else [])"
    by (simp add: filter_map comp_def)
  with Cons show ?case by auto
qed

lemma matrix_row_count:
  assumes "i < m"
  shows "length (filter (\<lambda>(r, c). r = i) matrix) = (if i = 0 then 1 else 2)"
  using assms filter_rows [of "[0..<m]" i row] by (simp add: matrix_def length_row)

lemma concat_rows_product:
  "concat (map (\<lambda>i. map (Pair i) (filter (P i) ys)) xs)
     = filter (\<lambda>(i, j). P i j) (List.product xs ys)"
  by (induction xs) (simp_all add: filter_map comp_def)

lemma matrix_eq_filter:
  "matrix = filter (\<lambda>(i, j). entry i j) (List.product [0..<m] [0..<m])"
proof -
  have "map (\<lambda>i. map (Pair i) (row i)) [0..<m]
          = map (\<lambda>i. map (Pair i) (filter (entry i) [0..<m])) [0..<m]"
    by (rule map_cong) (simp_all add: row_eq_filter)
  then show ?thesis
    by (simp only: matrix_def concat_rows_product)
qed

lemma distinct_matrix: "distinct matrix"
  by (simp add: matrix_eq_filter distinct_product)

lemma set_matrix: "set matrix = {(i, j). i < m \<and> j < m \<and> entry i j}"
  by (auto simp: matrix_eq_filter)

text \<open>Claim C5 says that every row, row 0 included, yields two matches. From the empty
  cache, row 0 of the matrix has one marked entry only.\<close>

theorem row_0_single_entry:
  "length (filter (\<lambda>(r, c). r = 0) (fst (createMultiplicativeMatrix Map.empty))) = 1"
  using matrix_row_count [of 0]
  by (simp add: createMultiplicativeMatrix_pure(1) [OF cache_ok_empty])

lemma singleton_list:
  assumes "length xs = 1" "set xs = {x}"
  shows "xs = [x]"
proof -
  from assms(1) obtain y where "xs = [y]"
    by (cases xs) simp_all
  with assms(2) show ?thesis by simp
qed

lemma row_0: "row 0 = [1]"
proof (rule singleton_list)
  show "length (row 0) = 1" by (simp add: length_row)
  have "set (row 0) = {j. j < 233 \<and> entry 0 j}"
    by (auto simp: row_eq_filter m_def)
  then show "set (row 0) = {1}" by (simp only: row_set_0)
qed

lemma matrix_row_0: "filter (\<lambda>(r, col). r = 0) matrix = [(0, 1)]"
  using filter_rows [of "[0..<m]" 0 row] by (simp add: matrix_def row_0)

lemma entry_code:
  assumes "cache_ok c"
  shows "(fst (compute_matrix_element (int i) (int j) c) = 1) = entry i j"
  by (simp add: compute_matrix_element_pure(1) [OF assms])

text \<open>Claim C5 as amended: the scan of \<open>j = 0..232\<close> keeps at most the first two matches of
  each row (the columns where \<open>compute_matrix_element\<close> returns 1), and for \<open>m = 233\<close>,
  \<open>p = 467\<close> row 0 contributes exactly one marked entry, \<open>(0, 1)\<close>, and every row \<open>1..232\<close>
  exactly two.\<close>

theorem matrix_row_counts:
  assumes "cache_ok c" and "i < m"
  shows "fst (createMultiplicativeMatrix c)
           = concat (map (\<lambda>i. map (Pair i)
                 (take 2 (filter (\<lambda>j. fst (compute_matrix_element (int i) (int j) c) = 1)
                            [0..<m]))) [0..<m])
         \<and> filter (\<lambda>(r, col). r = 0) (fst (createMultiplicativeMatrix c)) = [(0, 1)]
         \<and> length (filter (\<lambda>(r, col). r = i) (fst (createMultiplicativeMatrix c)))
           = (if i = 0 then 1 else 2)"
  using matrix_row_count [OF assms(2)] matrix_row_0
  by (simp add: createMultiplicativeMatrix_pure(1) [OF assms(1)] entry_code [OF assms(1)]
        matrix_def row_def)

theorem matrix_row_counts_witness:
  "cache_ok Map.empty \<and> 5 < m
   \<and> filter (\<lambda>(r, col). r = 0) (fst (createMultiplicativeMatrix Map.empty)) = [(0, 1)]
   \<and> length (filter (\<lambda>(r, col). r = 5) (fst (createMultiplicativeMatrix Map.empty))) = 2"
proof -
  have 5: "5 < m" by (simp add: m_def)
  note t = matrix_row_counts [OF cache_ok_empty 5]
  from t have a: "filter (\<lambda>(r, col). r = 0) (fst (createMultiplicativeMatrix Map.empty)) = [(0, 1)]"
    by (rule conjunct1 [OF conjunct2])
  from t have "length (filter (\<lambda>(r, col). r = 5) (fst (createMultiplicativeMatrix Map.empty)))
                 = (if (5::nat) = 0 then 1 else 2)"
    by (rule conjunct2 [OF conjunct2])
  then have b: "length (filter (\<lambda>(r, col). r = 5) (fst (createMultiplicativeMatrix Map.empty))) = 2"
    by simp
  from cache_ok_empty 5 a b show ?thesis by (intro conjI)
qed

section \<open>The rounds of the multiplication\<close>

lemma two_eq_zero: "(1::2) + 1 = 0"
  by simp

lemma z2_double [simp]: "(x::2) + x = 0"
proof -
  have "x + x = (1 + 1) * x" by (simp only: distrib_right mult_1)
  then show ?thesis by (simp only: two_eq_zero mult_zero_left)
qed

lemma z2_simps [simp]: "z2 True = 1" "z2 False = 0"
  by (simp_all add: z2_def)

lemma z2_xor: "z2 (x \<noteq> y) = z2 x + z2 y"
  by (cases x; cases y) simp_all

lemma z2_xor': "z2 (x = (\<not> y)) = z2 x + z2 y"
  by (cases x; cases y) simp_all

lemma z2_and: "z2 (x \<and> y) = z2 x * z2 y"
  by (cases x; cases y) simp_all

lemma z2_inj: "z2 x = z2 y \<longleftrightarrow> x = y"
  by (cases x; cases y) simp_all

lemma z2_idem [simp]: "z2 x * z2 x = z2 x"
  by (cases x) simp_all

lemma times_pure:
  assumes "cache_ok c"
  shows "fst (times_elem a b c) = mul a b" and "cache_ok (snd (times_elem a b c))"
proof -
  obtain matrixA c' where step: "createMultiplicativeMatrix c = (matrixA, c')" by force
  with createMultiplicativeMatrix_pure [OF assms] have "matrixA = matrix" "cache_ok c'"
    by simp_all
  with step show "fst (times_elem a b c) = mul a b" and "cache_ok (snd (times_elem a b c))"
    by (simp_all add: times_elem_def multiplyAndShift_def mul_def)
qed

lemma shifted_Suc: "shifted (Suc s) a = cyclicLeftShift (shifted s a) 1"
  by (simp add: shifted_def)

lemma shifted_Suc_right: "shifted (Suc s) a = shifted s (cyclicLeftShift a 1)"
  by (simp only: shifted_def funpow_Suc_right comp_def)

lemma shifted_0 [simp]: "shifted 0 a = a"
  by (simp add: shifted_def)

lemma shift_loop_eq:
  "shift_loop matrixA n a b acc
     = acc @ map (\<lambda>s. if round_bit matrixA (shifted s a) (shifted s b) then CHR ''1'' else CHR ''0'')
               [0..<n]"
proof (induction n arbitrary: a b acc)
  case 0
  then show ?case by simp
next
  case (Suc n)
  have "map (\<lambda>s. if round_bit matrixA (shifted s a) (shifted s b) then CHR ''1'' else CHR ''0'')
          [0..<Suc n]
        = (if round_bit matrixA a b then CHR ''1'' else CHR ''0'')
          # map (\<lambda>s. if round_bit matrixA (shifted s (cyclicLeftShift a 1))
                                        (shifted s (cyclicLeftShift b 1))
                       then CHR ''1'' else CHR ''0'') [0..<n]"
    by (simp add: upt_conv_Cons map_Suc_upt [symmetric] shifted_Suc_right del: upt_Suc)
  then show ?case
    by (simp add: Suc.IH round_bit_def Let_def del: upt_Suc)
qed

lemma length_shifted [simp]: "length a = m \<Longrightarrow> length (shifted s a) = m"
  by (cases s) (simp_all add: shifted_Suc)

lemma co_shift1:
  assumes "length a = m" "j < m"
  shows "co (cyclicLeftShift a 1) j = co a ((j + 1) mod m)"
proof -
  define i where "i = m - 1 - (j + 1) mod m"
  have "i < m" by (simp add: i_def)
  moreover have "(i + 1) mod m = m - 1 - j"
  proof (cases "j + 1 = m")
    case True
    then show ?thesis by (simp add: i_def)
  next
    case False
    with assms(2) have "j + 1 < m" by simp
    then show ?thesis by (simp add: i_def)
  qed
  ultimately show ?thesis
    using cyclicLeftShift_nth [OF assms(1), of i 1] by (simp add: co_def i_def)
qed

lemma co_shifted:
  assumes "length a = m" "j < m"
  shows "co (shifted s a) j = co a ((j + s) mod m)"
  using assms(2)
proof (induction s arbitrary: j)
  case 0
  then show ?case by simp
next
  case (Suc s)
  have "co (shifted (Suc s) a) j = co (cyclicLeftShift (shifted s a) 1) j"
    by (simp only: shifted_Suc)
  also have "\<dots> = co (shifted s a) ((j + 1) mod m)"
    using co_shift1 [of "shifted s a" j] assms(1) Suc.prems by simp
  also have "\<dots> = co a (((j + 1) mod m + s) mod m)"
    by (rule Suc.IH) simp
  also have "((j + 1) mod m + s) mod m = (j + Suc s) mod m"
    by (simp add: mod_add_left_eq)
  finally show ?case .
qed

lemma length_multiplyWithMatrix [simp]: "length (multiplyWithMatrix a M) = m"
proof (induction M rule: rev_induct)
  case Nil
  then show ?case by (simp add: multiplyWithMatrix_def)
next
  case (snoc x xs)
  then show ?case by (simp add: multiplyWithMatrix_def split: prod.splits)
qed

lemma multiplyWithMatrix_nth:
  assumes "k < m"
  shows "z2 (multiplyWithMatrix a M ! k) = (\<Sum>(i, j)\<leftarrow>M. if i = k then z2 (co a j) else 0)"
    and "length (multiplyWithMatrix a M) = m"
proof -
  have "z2 (multiplyWithMatrix a M ! k) = (\<Sum>(i, j)\<leftarrow>M. if i = k then z2 (co a j) else 0)
        \<and> length (multiplyWithMatrix a M) = m"
  proof (induction M rule: rev_induct)
    case Nil
    then show ?case using assms by (simp add: multiplyWithMatrix_def)
  next
    case (snoc x xs)
    obtain i j where x: "x = (i, j)" by force
    let ?r = "multiplyWithMatrix a xs"
    have step: "multiplyWithMatrix a (xs @ [x]) = ?r[i := (?r ! i \<noteq> a ! (m - 1 - j))]"
      by (simp add: multiplyWithMatrix_def x)
    have "z2 (?r[i := (?r ! i \<noteq> a ! (m - 1 - j))] ! k)
            = z2 (?r ! k) + (if i = k then z2 (co a j) else 0)"
      using snoc assms by (simp add: nth_list_update z2_xor' co_def)
    with snoc show ?case
      unfolding step by (simp add: x)
  qed
  then show "z2 (multiplyWithMatrix a M ! k) = (\<Sum>(i, j)\<leftarrow>M. if i = k then z2 (co a j) else 0)"
    and "length (multiplyWithMatrix a M) = m" by simp_all
qed

lemma transposeToVector_nth:
  assumes "i < m"
  shows "transposeToVector b ! i = co b i"
  using store_loop_nth [of "\<lambda>i. i" "[0..<m]" i "replicate m False" "\<lambda>i. b ! (m - 1 - i)"] assms
  by (simp add: transposeToVector_def co_def)

lemma multiplyWithTransposed_sum:
  "z2 (multiplyWithTransposed t other) = (\<Sum>i\<leftarrow>[0..<m]. z2 (other ! i) * z2 (t ! i))"
proof -
  have "z2 (foldl (\<lambda>result i. if other ! i then (result \<noteq> t ! i) else result) r xs)
          = z2 r + (\<Sum>i\<leftarrow>xs. z2 (other ! i) * z2 (t ! i))" for r xs
    by (induction xs arbitrary: r) (simp_all add: z2_xor' add.assoc)
  then show ?thesis by (simp add: multiplyWithTransposed_def)
qed

lemma sum_list_upt_delta:
  "(\<Sum>k\<leftarrow>[0..<n]. if i = k then f k else (0::2)) = (if i < n then f i else 0)"
  by (simp add: interv_sum_list_conv_sum_set_nat)

lemma sum_list_rows:
  "(\<Sum>k\<leftarrow>[0..<n]. f k * (\<Sum>(i, j)\<leftarrow>M. if i = k then h j else (0::2)))
     = (\<Sum>(i, j)\<leftarrow>M. if i < n then f i * h j else 0)"
proof (induction M)
  case Nil
  then show ?case by simp
next
  case (Cons x xs)
  obtain i j where x: "x = (i, j)" by force
  have "(\<Sum>k\<leftarrow>[0..<n]. f k * (\<Sum>(i, j)\<leftarrow>x # xs. if i = k then h j else 0))
          = (\<Sum>k\<leftarrow>[0..<n]. (if i = k then f k * h j else 0)
                                 + f k * (\<Sum>(i, j)\<leftarrow>xs. if i = k then h j else 0))"
    by (rule arg_cong [where f = sum_list], rule map_cong) (simp_all add: x distrib_left)
  also have "\<dots> = (\<Sum>k\<leftarrow>[0..<n]. if i = k then f k * h j else 0)
                  + (\<Sum>k\<leftarrow>[0..<n]. f k * (\<Sum>(i, j)\<leftarrow>xs. if i = k then h j else 0))"
    by (simp only: sum_list_addf)
  also have "\<dots> = (if i < n then f i * h j else 0) + (\<Sum>(i, j)\<leftarrow>xs. if i < n then f i * h j else 0)"
    by (simp only: Cons.IH sum_list_upt_delta [of i "\<lambda>k. f k * h j" n])
  finally show ?case by (simp add: x)
qed

lemma round_bit_sum:
  "z2 (round_bit M a b) = (\<Sum>(i, j)\<leftarrow>M. if i < m then z2 (co b i) * z2 (co a j) else 0)"
proof -
  let ?t = "multiplyWithMatrix a M"
  have "z2 (round_bit M a b)
          = (\<Sum>k\<leftarrow>[0..<m]. z2 (transposeToVector b ! k) * z2 (?t ! k))"
    by (simp add: round_bit_def multiplyWithTransposed_sum)
  also have "\<dots> = (\<Sum>k\<leftarrow>[0..<m]. z2 (co b k) * (\<Sum>(i, j)\<leftarrow>M. if i = k then z2 (co a j) else 0))"
    by (rule arg_cong [where f = sum_list], rule map_cong)
       (simp_all add: transposeToVector_nth multiplyWithMatrix_nth(1))
  also have "\<dots> = (\<Sum>(i, j)\<leftarrow>M. if i < m then z2 (co b i) * z2 (co a j) else 0)"
    by (rule sum_list_rows)
  finally show ?thesis .
qed

lemma length_mul [simp]: "length (mul a b) = m"
  by (simp add: mul_def)

lemma mul_co_round:
  assumes "s < m"
  shows "co (mul a b) s = round_bit matrix (shifted s a) (shifted s b)"
proof -
  let ?bits = "map (\<lambda>s. if round_bit matrix (shifted s a) (shifted s b) then CHR ''1'' else CHR ''0'')
                 [0..<233]"
  have len: "length ?bits = m" by (simp add: m_def)
  have "mul a b = map (\<lambda>ch. ch = CHR ''1'') (rev ?bits)"
    unfolding mul_def shift_loop_eq using len by (simp del: upt_rec_numeral)
  then have "co (mul a b) s = (rev ?bits ! (m - 1 - s) = CHR ''1'')"
    using len assms by (simp add: co_def del: upt_rec_numeral)
  also have "rev ?bits ! (m - 1 - s) = ?bits ! s"
    using len assms by (simp add: rev_nth del: upt_rec_numeral)
  also have "?bits ! s = (if round_bit matrix (shifted s a) (shifted s b) then CHR ''1'' else CHR ''0'')"
    using assms by (simp add: m_def del: upt_rec_numeral)
  finally show ?thesis by simp
qed

lemma mul_co:
  assumes "length a = m" "length b = m" "s < m"
  shows "z2 (co (mul a b) s)
           = (\<Sum>(i, j)\<in>set matrix. z2 (co b ((i + s) mod m)) * z2 (co a ((j + s) mod m)))"
proof -
  have "z2 (co (mul a b) s)
          = (\<Sum>(i, j)\<leftarrow>matrix. if i < m then z2 (co (shifted s b) i) * z2 (co (shifted s a) j) else 0)"
    by (simp only: mul_co_round [OF assms(3)] round_bit_sum)
  also have "\<dots> = (\<Sum>(i, j)\<leftarrow>matrix. z2 (co b ((i + s) mod m)) * z2 (co a ((j + s) mod m)))"
    by (rule arg_cong [where f = sum_list], rule map_cong)
       (auto simp: set_matrix co_shifted assms)
  also have "\<dots> = (\<Sum>(i, j)\<in>set matrix. z2 (co b ((i + s) mod m)) * z2 (co a ((j + s) mod m)))"
    by (rule sum_list_distinct_conv_sum_set [OF distinct_matrix])
  finally show ?thesis .
qed

section \<open>The identity and the zero element\<close>

lemma co_nth: "i < m \<Longrightarrow> a ! i = co a (m - 1 - i)"
  by (simp add: co_def)

lemma co_eqI:
  assumes "length a = m" "length b = m" "\<And>s. s < m \<Longrightarrow> co a s = co b s"
  shows "a = b"
proof (rule nth_equalityI)
  show "length a = length b" using assms by simp
next
  fix i assume "i < length a"
  with assms(1) have "i < m" by simp
  then show "a ! i = b ! i"
    using assms(3) [of "m - 1 - i"] by (simp add: co_nth)
qed

lemma entry_sym: "entry i j = entry j i"
proof -
  have "g i - g j = 1 \<longleftrightarrow> - g j + g i = 1" by simp
  moreover have "- g i + g j = 1 \<longleftrightarrow> g j - g i = 1" by simp
  moreover have "- g i - g j = - g j - g i" by simp
  then have "- g i - g j = 1 \<longleftrightarrow> - g j - g i = 1" by (simp only:)
  moreover have "g i + g j = 1 \<longleftrightarrow> g j + g i = 1" by (simp add: add.commute)
  ultimately show ?thesis unfolding entry_iff by blast
qed

lemma sum_matrix:
  "(\<Sum>(i, j)\<in>set matrix. f i j) = (\<Sum>i<m. \<Sum>j<m. if entry i j then f i j else (0::2))"
proof -
  have "set matrix = {z \<in> {..<m} \<times> {..<m}. entry (fst z) (snd z)}"
    by (auto simp: set_matrix)
  then have "(\<Sum>(i, j)\<in>set matrix. f i j)
      = (\<Sum>z\<in>{..<m} \<times> {..<m}. if entry (fst z) (snd z) then (case z of (i, j) \<Rightarrow> f i j) else 0)"
    by (simp only: sum.inter_filter [symmetric] finite_cartesian_product finite_lessThan)
  also have "\<dots> = (\<Sum>(i, j)\<in>{..<m} \<times> {..<m}. if entry i j then f i j else 0)"
    by (rule sum.cong) auto
  also have "\<dots> = (\<Sum>i<m. \<Sum>j<m. if entry i j then f i j else 0)"
    by (simp only: sum.cartesian_product)
  finally show ?thesis .
qed

lemma z2_of_nat_2 [simp]: "(of_nat 2 :: 2) = 0"
  by simp

lemma col_count:
  assumes "j < m"
  shows "(\<Sum>i<m. if entry i j then 1 else (0::2)) = (if j = 0 then 1 else 0)"
proof -
  have "(\<Sum>i<m. if entry i j then 1 else (0::2)) = (\<Sum>i\<in>{i \<in> {..<m}. entry j i}. 1)"
    by (simp only: sum.inter_filter finite_lessThan entry_sym [of j])
  also have "\<dots> = of_nat (card {i \<in> {..<m}. entry j i})"
    by simp
  also have "{i \<in> {..<m}. entry j i} = {i. entry j i} \<inter> set [0..<m]"
    by auto
  also have "card ({i. entry j i} \<inter> set [0..<m]) = length (filter (entry j) [0..<m])"
    by (rule distinct_length_filter [symmetric]) simp
  finally show ?thesis
    by (simp add: filter_entry_length [OF assms])
qed

lemma length_identity [simp]: "length identity = m"
  by (simp add: identity_def)

lemma length_zero [simp]: "length zero = m"
  by (simp add: zero_def)

lemma co_identity [simp]: "s < m \<Longrightarrow> co identity s"
  by (simp add: co_def identity_def)

lemma co_zero [simp]: "s < m \<Longrightarrow> \<not> co zero s"
  by (simp add: co_def zero_def)

lemma mul_identity:
  assumes "length a = m"
  shows "mul a identity = a"
proof (rule co_eqI)
  fix s assume s: "s < m"
  define F where "F j = z2 (co a ((j + s) mod m))" for j
  have "z2 (co (mul a identity) s)
          = (\<Sum>(i, j)\<in>set matrix. z2 (co identity ((i + s) mod m)) * F j)"
    unfolding F_def by (rule mul_co [OF assms length_identity s])
  also have "\<dots> = (\<Sum>i<m. \<Sum>j<m. if entry i j then z2 (co identity ((i + s) mod m)) * F j else 0)"
    by (rule sum_matrix)
  also have "\<dots> = (\<Sum>i<m. \<Sum>j<m. if entry i j then F j else 0)"
    by (intro sum.cong refl) simp
  also have "\<dots> = (\<Sum>j<m. \<Sum>i<m. if entry i j then F j else 0)"
    by (rule sum.swap)
  also have "\<dots> = (\<Sum>j<m. F j * (\<Sum>i<m. if entry i j then 1 else 0))"
    by (intro sum.cong refl) (simp add: sum_distrib_left if_distrib [of "\<lambda>x. F _ * x"] cong: if_cong)
  also have "\<dots> = (\<Sum>j<m. if j = 0 then F j else 0)"
    by (intro sum.cong refl) (simp add: col_count)
  also have "\<dots> = F 0"
    by simp
  finally have "z2 (co (mul a identity) s) = z2 (co a s)"
    using s by (simp add: F_def)
  then show "co (mul a identity) s = co a s"
    by (simp only: z2_inj)
qed (simp_all add: assms)

lemma mul_zero_left:
  assumes "length b = m"
  shows "mul zero b = zero"
proof (rule co_eqI)
  fix s assume s: "s < m"
  have "z2 (co (mul zero b) s)
          = (\<Sum>(i, j)\<in>set matrix. z2 (co b ((i + s) mod m)) * z2 (co zero ((j + s) mod m)))"
    by (rule mul_co [OF length_zero assms s])
  also have "\<dots> = (\<Sum>(i, j)\<in>set matrix. 0)"
    by (intro sum.cong refl) auto
  finally have "z2 (co (mul zero b) s) = z2 False" by simp
  then show "co (mul zero b) s = co zero s"
    using s by (simp only: z2_inj co_zero)
qed simp_all

lemma squareONB_zero: "squareONB zero = zero"
proof (rule nth_equalityI)
  fix i assume "i < length (squareONB zero)"
  then have "i < m" by simp
  then show "squareONB zero ! i = zero ! i"
    by (simp add: squareONB_nth zero_def)
qed simp

lemma square_times_zero: "square_times k zero = zero"
  by (induction k) (simp_all add: squareONB_zero)

lemma inverse_loop_zero:
  assumes "cache_ok c"
  shows "fst (inverse_loop is zero zero k c) = zero \<and> cache_ok (snd (inverse_loop is zero zero k c))"
  using assms
proof (induction "is" arbitrary: k c)
  case Nil
  then show ?case by simp
next
  case (Cons i "is")
  obtain beta' c' where 1: "times_elem zero zero c = (beta', c')" by force
  with times_pure [OF Cons.prems, of zero zero] have b: "beta' = zero" and c': "cache_ok c'"
    by (simp_all add: mul_zero_left)
  obtain beta'' c'' where 2: "times_elem zero zero c' = (beta'', c'')" by force
  with times_pure [OF c', of zero zero] have b': "beta'' = zero" and c'': "cache_ok c''"
    by (simp_all add: mul_zero_left)
  show ?case
    using 1 2 b b' Cons.IH [OF c'] Cons.IH [OF c'']
    by (simp add: square_times_zero squareONB_zero Let_def)
qed

lemma inverse_zero:
  assumes "cache_ok c"
  shows "fst (inverse_elem zero c) = zero"
proof -
  obtain beta c' where 1: "inverse_loop [1..<8] zero zero 1 c = (beta, c')" by force
  with inverse_loop_zero [OF assms, of "[1..<8]" 1] have "beta = zero" by simp
  with 1 show ?thesis by (simp add: inverse_elem_def squareONB_zero)
qed

lemma length_multiplyAndShift:
  "length (fst (multiplyAndShift a b steps c)) = steps"
  by (simp add: multiplyAndShift_def shift_loop_eq split: prod.splits)

lemma times_nth:
  assumes "k < m"
  shows "fst (times_elem a b c) ! k = (fst (multiplyAndShift a b 233 c) ! (232 - k) = CHR ''1'')"
proof -
  obtain result c' where r: "multiplyAndShift a b 233 c = (result, c')" by force
  with length_multiplyAndShift [of a b 233 c] have len: "length result = 233" by simp
  with assms have "GF2mElement (map (\<lambda>ch. ch = CHR ''1'') (rev result)) ! k
                     = (result ! (232 - k) = CHR ''1'')"
    by (simp add: m_def rev_nth)
  with r show ?thesis by (simp add: times_elem_def)
qed

section \<open>Claims about the product\<close>

text \<open>Claim C2: for every field element \<open>a\<close>, multiplying \<open>a\<close> by the all-true element gives
  \<open>a\<close>, from every state of the cache that the program can reach.\<close>

theorem multiply_identity:
  assumes "cache_ok c" and "length a = m"
  shows "fst (times_elem a identity c) = a"
  using times_pure(1) [OF assms(1), of a identity] mul_identity [OF assms(2)] by simp

theorem multiply_identity_witness:
  "cache_ok Map.empty \<and> length e0 = m \<and> fst (times_elem e0 identity Map.empty) = e0"
proof -
  have len: "length e0 = m" by (simp add: e0_def m_def)
  from multiply_identity [OF cache_ok_empty len] cache_ok_empty len show ?thesis by simp
qed

text \<open>Claim C3 says that the first round's output bit becomes coefficient 0 of the
  product. For the product of \<open>e0\<close> and the all-true element, coefficient 0 of the product
  is set while the first round's output bit is \<open>'0'\<close>.\<close>

theorem first_round_not_coefficient_0:
  "fst (times_elem e0 identity Map.empty) ! 0
     \<noteq> (fst (multiplyAndShift e0 identity 233 Map.empty) ! 0 = CHR ''1'')"
proof -
  have len: "length e0 = m" by (simp add: e0_def m_def)
  have prod: "fst (times_elem e0 identity Map.empty) = e0"
    using times_pure(1) [OF cache_ok_empty, of e0 identity] mul_identity [OF len] by simp
  have "fst (times_elem e0 identity Map.empty) ! 232
          = (fst (multiplyAndShift e0 identity 233 Map.empty) ! (232 - 232) = CHR ''1'')"
    by (rule times_nth) (simp add: m_def)
  then have "(fst (multiplyAndShift e0 identity 233 Map.empty) ! 0 = CHR ''1'') = e0 ! 232"
    by (simp add: prod)
  moreover have "e0 ! 0" "\<not> e0 ! 232" by (simp_all add: e0_def)
  ultimately show ?thesis by (simp add: prod)
qed

lemma multiplyAndShift_rounds:
  "fst (multiplyAndShift a b steps c)
     = map (\<lambda>r. if round_bit (fst (createMultiplicativeMatrix c)) (shifted r a) (shifted r b)
                 then CHR ''1'' else CHR ''0'') [0..<steps]"
  by (simp add: multiplyAndShift_def shift_loop_eq split: prod.splits)

lemma multiplyAndShift_nth:
  assumes "r < steps"
  shows "fst (multiplyAndShift a b steps c) ! r
           = (if round_bit (fst (createMultiplicativeMatrix c)) (shifted r a) (shifted r b)
              then CHR ''1'' else CHR ''0'')"
  unfolding multiplyAndShift_rounds using assms by simp

text \<open>Claim C3 as amended: round \<open>r\<close> of the multiply-and-shift loop works on \<open>a\<close> and \<open>b\<close>
  shifted \<open>r\<close> times and appends its output bit as character \<open>r\<close> of the result string; the
  product is formed from the 233 per-round output bits by reversing that sequence, so that
  coefficient \<open>k\<close> of the product is the output bit of round \<open>232 - k\<close>: the first round's
  bit becomes coefficient 232 and the last round's bit becomes coefficient 0.\<close>

theorem product_reads_rounds_reversed:
  assumes "k < m"
  shows "length (fst (multiplyAndShift a b 233 c)) = 233
         \<and> fst (multiplyAndShift a b 233 c) ! (232 - k)
             = (if round_bit (fst (createMultiplicativeMatrix c))
                     (shifted (232 - k) a) (shifted (232 - k) b)
                then CHR ''1'' else CHR ''0'')
         \<and> fst (times_elem a b c) ! k
             = round_bit (fst (createMultiplicativeMatrix c))
                 (shifted (232 - k) a) (shifted (232 - k) b)"
proof -
  have r: "232 - k < 233" by simp
  show ?thesis
    using times_nth [OF assms, of a b c] length_multiplyAndShift [of a b 233 c]
    by (simp add: multiplyAndShift_nth [OF r])
qed

theorem product_reads_rounds_reversed_witness:
  "232 < m
   \<and> fst (times_elem e0 identity Map.empty) ! 232
       = round_bit (fst (createMultiplicativeMatrix Map.empty)) e0 identity
   \<and> 0 < m
   \<and> fst (times_elem e0 identity Map.empty) ! 0
       = round_bit (fst (createMultiplicativeMatrix Map.empty)) (shifted 232 e0) (shifted 232 identity)"
proof -
  have 1: "232 < m" and 2: "0 < m" by (simp_all add: m_def)
  have a: "fst (times_elem e0 identity Map.empty) ! 232
             = round_bit (fst (createMultiplicativeMatrix Map.empty))
                 (shifted (232 - 232) e0) (shifted (232 - 232) identity)"
    using product_reads_rounds_reversed [OF 1, of e0 identity Map.empty]
    by (rule conjunct2 [OF conjunct2])
  have b: "fst (times_elem e0 identity Map.empty) ! 0
             = round_bit (fst (createMultiplicativeMatrix Map.empty))
                 (shifted (232 - 0) e0) (shifted (232 - 0) identity)"
    using product_reads_rounds_reversed [OF 2, of e0 identity Map.empty]
    by (rule conjunct2 [OF conjunct2])
  from a b 1 2 show ?thesis by simp
qed

section \<open>Inverting the zero element\<close>

text \<open>Claim C7 says that inverting the zero element raises a domain error. \<open>inverse\<close> has
  no zero check and no failing branch: from the empty cache it returns the zero element.\<close>

theorem inverse_zero_returns_zero: "fst (inverse_elem zero Map.empty) = zero"
  by (rule inverse_zero [OF cache_ok_empty])

text \<open>Claim C7 as amended: \<open>inverse\<close> does not check for the zero element; inverting the
  zero element runs the addition chain and returns the zero element, from every state of
  the cache that the program can reach.\<close>

theorem inverse_zero_is_zero:
  assumes "cache_ok c"
  shows "fst (inverse_elem zero c) = zero"
  by (rule inverse_zero [OF assms])

theorem inverse_zero_is_zero_witness:
  "cache_ok (Map.empty(0 \<mapsto> 1)) \<and> fst (inverse_elem zero (Map.empty(0 \<mapsto> 1))) = zero"
proof -
  have ok: "cache_ok (Map.empty(0 \<mapsto> 1))"
    by (simp add: cache_ok_def pow2_def)
  from inverse_zero_is_zero [OF ok] ok show ?thesis by simp
qed

section \<open>The product as a convolution\<close>

lemma pm_mult: "pm x y \<Longrightarrow> pm (x * t) (y * t)"
  by (auto simp: pm_def)

lemma pm_nonzero: "pm x y \<Longrightarrow> y \<noteq> 0 \<Longrightarrow> x \<noteq> 0"
  by (auto simp: pm_def)

lemma g_mod: "pm (g n) (g (n mod 233))"
proof (induction n rule: less_induct)
  case (less n)
  show ?case
  proof (cases "n < 233")
    case True
    then show ?thesis by simp
  next
    case False
    then have n: "n = (n - 233) + 233" by simp
    have "g n = g (n - 233) * g 233"
      by (subst n) (rule g_add)
    then have "pm (g n) (g (n - 233))"
      by (simp add: g_233 pm_def)
    moreover have "pm (g (n - 233)) (g ((n - 233) mod 233))"
      using False by (intro less.IH) simp
    moreover have "(n - 233) mod 233 = n mod 233"
      using False by (simp add: le_mod_geq)
    ultimately show ?thesis using pm_trans by metis
  qed
qed

lemma dlog_g: "dlog (g n) = n mod 233"
  by (rule dlog_unique) (simp_all add: g_mod)

lemma dlog_pm:
  assumes "pm x y"
  shows "dlog x = dlog y"
proof (cases "y = 0")
  case True
  with assms show ?thesis by simp
next
  case False
  from dlog_props [OF False] assms have "dlog y < 233" "pm x (g (dlog y))"
    using pm_trans by blast+
  then show ?thesis by (rule dlog_unique)
qed

lemma phi_0 [simp]: "phi a 0 = 0"
  by (simp add: phi_def)

lemma phi_pm:
  assumes "pm x y"
  shows "phi a x = phi a y"
proof -
  from assms have "x = 0 \<longleftrightarrow> y = 0" by (auto simp: pm_def)
  with dlog_pm [OF assms] show ?thesis by (simp add: phi_def)
qed

lemma phi_minus [simp]: "phi a (- x) = phi a x"
  by (rule phi_pm) simp

lemma phi_g: "phi a (g n) = z2 (co a (n mod 233))"
  by (simp add: phi_def dlog_g)

lemma phi_inj:
  assumes "length a = m" "length b = m" "\<And>k. phi a k = phi b k"
  shows "a = b"
proof (rule co_eqI [OF assms(1,2)])
  fix s assume "s < m"
  then have "s mod 233 = s" by (simp add: m_def)
  with assms(3) [of "g s"] show "co a s = co b s"
    by (simp add: phi_g z2_inj)
qed

lemma mul_phi_g:
  assumes "length a = m" "length b = m" "s < m"
  shows "phi (mul a b) (g s)
           = (\<Sum>(i, j)\<in>set matrix. phi b (g i * g s) * phi a (g j * g s))"
proof -
  have "s mod 233 = s" using assms(3) by (simp add: m_def)
  then have "phi (mul a b) (g s) = z2 (co (mul a b) s)"
    by (simp add: phi_g)
  also have "\<dots> = (\<Sum>(i, j)\<in>set matrix. z2 (co b ((i + s) mod m)) * z2 (co a ((j + s) mod m)))"
    by (rule mul_co [OF assms])
  also have "\<dots> = (\<Sum>(i, j)\<in>set matrix. phi b (g i * g s) * phi a (g j * g s))"
    by (intro sum.cong refl) (auto simp: g_add [symmetric] phi_g m_def)
  finally show ?thesis .
qed

lemma sum_symmetric:
  fixes F :: "467 \<Rightarrow> 2"
  assumes "\<And>x. F (- x) = F x"
  shows "(\<Sum>x\<in>UNIV. F x) = F 0"
proof -
  let ?I = "{0..<233::nat}"
  let ?P = "g ` ?I" and ?N = "(\<lambda>s. - g s) ` ?I"
  have injP: "inj_on g ?I"
    by (rule inj_onI) (use g_inj in auto)
  have injN: "inj_on (\<lambda>s. - g s) ?I"
    by (rule inj_onI) (use g_inj in auto)
  have disj: "?P \<inter> ?N = {}"
  proof (rule ccontr)
    assume "?P \<inter> ?N \<noteq> {}"
    then obtain s t where st: "s < 233" "t < 233" "g s = - g t" by auto
    with g_inj [of s t] have "s = t" by simp
    with st(3) g_neq_neg [of s t] show False by simp
  qed
  have cover: "UNIV - {0} = ?P \<union> ?N"
  proof (rule set_eqI)
    fix k :: 467
    show "k \<in> UNIV - {0} \<longleftrightarrow> k \<in> ?P \<union> ?N"
    proof
      assume "k \<in> UNIV - {0}"
      then have "k \<noteq> 0" by simp
      from g_surj [OF this] obtain s where "s < 233" "k = g s \<or> k = - g s" by blast
      then show "k \<in> ?P \<union> ?N" by auto
    next
      assume "k \<in> ?P \<union> ?N"
      then obtain s where "k = g s \<or> k = - g s" by blast
      then have "k \<noteq> 0" by auto
      then show "k \<in> UNIV - {0}" by simp
    qed
  qed
  have "(\<Sum>x\<in>UNIV. F x) = F 0 + (\<Sum>x\<in>UNIV - {0}. F x)"
    by (simp add: sum.remove [of UNIV 0])
  also have "(\<Sum>x\<in>UNIV - {0}. F x) = (\<Sum>x\<in>?P. F x) + (\<Sum>x\<in>?N. F x)"
    unfolding cover by (rule sum.union_disjoint) (simp_all add: disj)
  also have "(\<Sum>x\<in>?P. F x) = (\<Sum>s\<in>?I. F (g s))"
    by (simp only: sum.reindex [OF injP] comp_def)
  also have "(\<Sum>x\<in>?N. F x) = (\<Sum>s\<in>?I. F (- g s))"
    by (simp only: sum.reindex [OF injN] comp_def)
  also have "\<dots> = (\<Sum>s\<in>?I. F (g s))"
    by (simp only: assms)
  finally show ?thesis by simp
qed

lemma sum_reflect:
  fixes F :: "467 \<Rightarrow> 2"
  assumes "\<And>x. F (k - x) = F x"
  shows "(\<Sum>x\<in>UNIV. F x) = F (234 * k)"
proof -
  have half: "234 * k + 234 * k = k"
  proof -
    have "234 * k + 234 * k = (2 * 234) * k" by (simp add: algebra_simps)
    then show ?thesis by (simp only: two_inv mult_1)
  qed
  define F' where "F' y = F (y + 234 * k)" for y
  have "F' (- y) = F' y" for y
  proof -
    have "k - (y + 234 * k) = - y + 234 * k"
      using half by (simp add: algebra_simps)
    with assms [of "y + 234 * k"] show ?thesis by (simp add: F'_def)
  qed
  then have "(\<Sum>y\<in>UNIV. F' y) = F' 0" by (rule sum_symmetric)
  moreover have "(\<Sum>y\<in>UNIV. F' y) = (\<Sum>x\<in>UNIV. F x)"
    unfolding F'_def
    by (rule sum.reindex_bij_witness [of _ "\<lambda>x. x - 234 * k" "\<lambda>y. y + 234 * k"]) simp_all
  ultimately show ?thesis by (simp add: F'_def)
qed

lemma conv_comm: "conv F G k = conv G F k"
  unfolding conv_def
  by (rule sum.reindex_bij_witness [of _ "\<lambda>x. k - x" "\<lambda>x. k - x"]) (simp_all add: mult.commute)

lemma conv_assoc: "conv (conv F G) H k = conv F (conv G H) k"
proof -
  have "conv (conv F G) H k = (\<Sum>x\<in>UNIV. \<Sum>y\<in>UNIV. F y * G (x - y) * H (k - x))"
    by (simp add: conv_def sum_distrib_right)
  also have "\<dots> = (\<Sum>y\<in>UNIV. \<Sum>x\<in>UNIV. F y * G (x - y) * H (k - x))"
    by (rule sum.swap)
  also have "\<dots> = (\<Sum>y\<in>UNIV. \<Sum>z\<in>UNIV. F y * G z * H (k - y - z))"
  proof (rule sum.cong [OF refl])
    fix y :: 467
    show "(\<Sum>x\<in>UNIV. F y * G (x - y) * H (k - x)) = (\<Sum>z\<in>UNIV. F y * G z * H (k - y - z))"
      by (rule sum.reindex_bij_witness [of _ "\<lambda>z. z + y" "\<lambda>x. x - y"])
         (simp_all add: algebra_simps)
  qed
  also have "\<dots> = conv F (conv G H) k"
    by (simp add: conv_def sum_distrib_left mult.assoc)
  finally show ?thesis .
qed

lemma conv_minus:
  assumes "\<And>x. F (- x) = F x" "\<And>x. G (- x) = G x"
  shows "conv F G (- k) = conv F G k"
proof -
  have "conv F G (- k) = (\<Sum>x\<in>UNIV. F (- x) * G (- k - (- x)))"
    unfolding conv_def
    by (rule sum.reindex_bij_witness [of _ "\<lambda>x. - x" "\<lambda>x. - x"]) simp_all
  also have "\<dots> = (\<Sum>x\<in>UNIV. F x * G (- (k - x)))"
    by (simp add: assms(1))
  also have "\<dots> = conv F G k"
    by (simp only: assms(2) conv_def)
  finally show ?thesis .
qed

lemma conv_scaled:
  assumes "t * t' = 1" "F 0 = 0" "G 0 = 0"
  shows "conv F G t = (\<Sum>y\<in>UNIV - {0, 1}. F (y * t) * G ((1 - y) * t))"
proof -
  have "conv F G t = (\<Sum>y\<in>UNIV. F (y * t) * G ((1 - y) * t))"
    unfolding conv_def
  proof (rule sum.reindex_bij_witness [of _ "\<lambda>y. y * t" "\<lambda>x. x * t'"])
    fix x :: 467
    have "x * t' * t = x * (t * t')" by (simp only: ac_simps)
    then show "x * t' * t = x" by (simp add: assms(1))
    then show "F (x * t' * t) * G ((1 - x * t') * t) = F x * G (t - x)"
      by (simp add: algebra_simps)
  next
    fix y :: 467
    have "y * t * t' = y * (t * t')" by (simp only: ac_simps)
    then show "y * t * t' = y" by (simp add: assms(1))
  qed simp_all
  also have "\<dots> = (\<Sum>y\<in>UNIV - {0, 1}. F (y * t) * G ((1 - y) * t))"
    by (rule sum.mono_neutral_right) (auto simp: assms)
  finally show ?thesis .
qed

lemma hmap_in_matrix:
  assumes "y \<noteq> 0" "y \<noteq> 1"
  shows "hmap y \<in> set matrix"
proof -
  from assms have y1: "1 - y \<noteq> 0" by simp
  let ?i = "dlog (1 - y)" and ?j = "dlog y"
  note i = dlog_props [OF y1] and j = dlog_props [OF assms(1)]
  from pm_sym [OF i(2)] consider "g ?i = 1 - y" | "g ?i = - (1 - y)"
    unfolding pm_def by blast
  then have "entry ?i ?j"
  proof cases
    case 1
    then have "1 - g ?i = y" by simp
    with j(2) show ?thesis unfolding entry_pm using pm_sym by metis
  next
    case 2
    then have "1 + g ?i = y" by simp
    with j(2) show ?thesis unfolding entry_pm using pm_sym by metis
  qed
  with i(1) j(1) show ?thesis
    by (simp add: hmap_def set_matrix m_def)
qed

lemma hmap_inj: "inj_on hmap (UNIV - {0, 1})"
proof (rule inj_onI)
  fix y y' :: 467
  assume y: "y \<in> UNIV - {0, 1}" and y': "y' \<in> UNIV - {0, 1}" and eq: "hmap y = hmap y'"
  from y y' have nz: "y \<noteq> 0" "y' \<noteq> 0" "1 - y \<noteq> 0" "1 - y' \<noteq> 0" by simp_all
  from eq have d: "dlog y = dlog y'" "dlog (1 - y) = dlog (1 - y')"
    by (simp_all add: hmap_def)
  have "pm y (g (dlog y))" "pm y' (g (dlog y))"
    using dlog_props(2) [OF nz(1)] dlog_props(2) [OF nz(2)] d(1) by simp_all
  then have 1: "pm y y'" using pm_sym pm_trans by blast
  have "pm (1 - y) (g (dlog (1 - y)))" "pm (1 - y') (g (dlog (1 - y)))"
    using dlog_props(2) [OF nz(3)] dlog_props(2) [OF nz(4)] d(2) by simp_all
  then have 2: "pm (1 - y) (1 - y')" using pm_sym pm_trans by blast
  show "y = y'"
  proof (rule ccontr)
    assume ne: "y \<noteq> y'"
    with 1 have yy: "y = - y'" by (simp add: pm_def)
    with 2 have "pm (1 + y') (1 - y')" by simp
    then have "pm (1 - y') (1 + y')" by (rule pm_sym)
    then consider "1 - y' = 1 + y'" | "1 - y' = - (1 + y')" by (auto simp: pm_def)
    then show False
    proof cases
      case 1
      then have "2 * y' = 0" by (rule diff_eq_add_imp)
      with nz(2) show False using two_cancel by blast
    next
      case 2
      then have "(1::467) + 1 = 0" by (rule diff_eq_neg_add_imp)
      then show False using one_neq_zero_467 by simp
    qed
  qed
qed

lemma hmap_surj:
  assumes "(i, j) \<in> set matrix"
  shows "\<exists>y. y \<noteq> 0 \<and> y \<noteq> 1 \<and> hmap y = (i, j)"
proof -
  from assms have ij: "i < 233" "j < 233" and e: "entry i j"
    by (simp_all add: set_matrix m_def)
  have key: "\<exists>y. y \<noteq> 0 \<and> y \<noteq> 1 \<and> hmap y = (i, j)" if "pm y (g j)" "pm (1 - y) (g i)" for y
  proof -
    from that have "y \<noteq> 0" "1 - y \<noteq> 0" using pm_nonzero g_nonzero by blast+
    moreover have "dlog y = j" using ij(2) that(1) by (rule dlog_unique)
    moreover have "dlog (1 - y) = i" using ij(1) that(2) by (rule dlog_unique)
    ultimately show ?thesis by (auto simp: hmap_def)
  qed
  from e consider "g j = 1 - g i" | "g j = - (1 - g i)" | "g j = 1 + g i" | "g j = - (1 + g i)"
    unfolding entry_pm pm_def by blast
  then show ?thesis
  proof cases
    case 1
    then have "1 - g j = g i" by simp
    then show ?thesis using key [of "g j"] by simp
  next
    case 2
    then have "- g j = 1 - g i" by simp
    then have "1 - (- g j) = g i" by simp
    then show ?thesis using key [of "- g j"] by (simp del: diff_minus_eq_add)
  next
    case 3
    then have "1 - g j = - g i" by simp
    then show ?thesis using key [of "g j"] by simp
  next
    case 4
    then have "- g j = 1 + g i" by simp
    then have "1 - (- g j) = - g i" by simp
    then show ?thesis using key [of "- g j"] by (simp del: diff_minus_eq_add)
  qed
qed

lemma hmap_image: "hmap ` (UNIV - {0, 1}) = set matrix"
proof (rule set_eqI)
  fix z :: "nat \<times> nat"
  obtain i j where z: "z = (i, j)" by force
  show "z \<in> hmap ` (UNIV - {0, 1}) \<longleftrightarrow> z \<in> set matrix"
  proof
    assume "z \<in> hmap ` (UNIV - {0, 1})"
    then obtain y where "y \<noteq> 0" "y \<noteq> 1" "z = hmap y" by auto
    then show "z \<in> set matrix" using hmap_in_matrix by simp
  next
    assume "z \<in> set matrix"
    with z hmap_surj [of i j] obtain y where "y \<noteq> 0" "y \<noteq> 1" "hmap y = z" by auto
    then show "z \<in> hmap ` (UNIV - {0, 1})" by force
  qed
qed

lemma mul_phi_at_g:
  assumes "length a = m" "length b = m" "s < m"
  shows "phi (mul a b) (g s) = conv (phi a) (phi b) (g s)"
proof -
  let ?S = "UNIV - {0, 1::467}"
  have "phi (mul a b) (g s)
          = (\<Sum>z\<in>hmap ` ?S. case z of (i, j) \<Rightarrow> phi b (g i * g s) * phi a (g j * g s))"
    by (simp only: mul_phi_g [OF assms] hmap_image)
  also have "\<dots> = (\<Sum>y\<in>?S. case hmap y of (i, j) \<Rightarrow> phi b (g i * g s) * phi a (g j * g s))"
    by (simp only: sum.reindex [OF hmap_inj] comp_def)
  also have "\<dots> = (\<Sum>y\<in>?S. phi b (g (dlog (1 - y)) * g s) * phi a (g (dlog y) * g s))"
    by (simp only: hmap_def prod.case)
  also have "\<dots> = (\<Sum>y\<in>?S. phi a (y * g s) * phi b ((1 - y) * g s))"
  proof (rule sum.cong [OF refl])
    fix y :: 467 assume "y \<in> ?S"
    then have nz: "y \<noteq> 0" "1 - y \<noteq> 0" by simp_all
    have "pm (g (dlog y) * g s) (y * g s)"
      by (rule pm_mult [OF pm_sym [OF dlog_props(2) [OF nz(1)]]])
    then have 1: "phi a (g (dlog y) * g s) = phi a (y * g s)" by (rule phi_pm)
    have "pm (g (dlog (1 - y)) * g s) ((1 - y) * g s)"
      by (rule pm_mult [OF pm_sym [OF dlog_props(2) [OF nz(2)]]])
    then have 2: "phi b (g (dlog (1 - y)) * g s) = phi b ((1 - y) * g s)" by (rule phi_pm)
    show "phi b (g (dlog (1 - y)) * g s) * phi a (g (dlog y) * g s)
            = phi a (y * g s) * phi b ((1 - y) * g s)"
      unfolding 1 2 by (rule mult.commute)
  qed
  also have "\<dots> = conv (phi a) (phi b) (g s)"
    by (rule conv_scaled [OF g_unit, symmetric]) simp_all
  finally show ?thesis .
qed

lemma mul_phi:
  assumes "length a = m" "length b = m"
  shows "phi (mul a b) k = conv (phi a) (phi b) k"
proof (cases "k = 0")
  case True
  have "conv (phi a) (phi b) 0 = (\<Sum>x\<in>UNIV. phi a x * phi b x)"
    by (simp add: conv_def)
  also have "\<dots> = phi a 0 * phi b 0"
    by (rule sum_symmetric) simp
  finally show ?thesis using True by simp
next
  case False
  from dlog_props [OF False] have s: "dlog k < m" and k: "pm k (g (dlog k))"
    by (simp_all add: m_def)
  have "phi (mul a b) k = phi (mul a b) (g (dlog k))"
    using k by (rule phi_pm)
  also have "\<dots> = conv (phi a) (phi b) (g (dlog k))"
    by (rule mul_phi_at_g [OF assms s])
  also have "\<dots> = conv (phi a) (phi b) k"
  proof -
    from k consider "k = g (dlog k)" | "k = - g (dlog k)" unfolding pm_def by blast
    then show ?thesis
    proof cases
      case 1
      then show ?thesis by simp
    next
      case 2
      have "conv (phi a) (phi b) (- g (dlog k)) = conv (phi a) (phi b) (g (dlog k))"
        by (rule conv_minus) simp_all
      with 2 show ?thesis by simp
    qed
  qed
  finally show ?thesis .
qed

lemma mul_comm:
  assumes "length a = m" "length b = m"
  shows "mul a b = mul b a"
proof (rule phi_inj)
  fix k
  show "phi (mul a b) k = phi (mul b a) k"
    by (simp only: mul_phi [OF assms] mul_phi [OF assms(2,1)] conv_comm)
qed simp_all

lemma conv_cong: "(\<And>x. F x = F' x) \<Longrightarrow> (\<And>x. G x = G' x) \<Longrightarrow> conv F G k = conv F' G' k"
  by (simp add: conv_def)

lemma mul_assoc:
  assumes "length a = m" "length b = m" "length c = m"
  shows "mul (mul a b) c = mul a (mul b c)"
proof (rule phi_inj)
  fix k
  have "phi (mul (mul a b) c) k = conv (phi (mul a b)) (phi c) k"
    by (rule mul_phi) (simp_all add: assms)
  also have "\<dots> = conv (conv (phi a) (phi b)) (phi c) k"
    by (rule conv_cong) (simp_all add: mul_phi assms)
  also have "\<dots> = conv (phi a) (conv (phi b) (phi c)) k"
    by (rule conv_assoc)
  also have "\<dots> = conv (phi a) (phi (mul b c)) k"
    by (rule conv_cong) (simp_all add: mul_phi assms)
  also have "\<dots> = phi (mul a (mul b c)) k"
    by (rule mul_phi [symmetric]) (simp_all add: assms)
  finally show "phi (mul (mul a b) c) k = phi (mul a (mul b c)) k" .
qed simp_all

section \<open>Squaring\<close>

lemma half_234: "k - 234 * k = 234 * (k::467)"
proof -
  have "234 * k + 234 * k = (2 * 234) * k" by (simp add: algebra_simps)
  then have "234 * k + 234 * k = k" by (simp only: two_inv mult_1)
  then show ?thesis by (simp add: algebra_simps)
qed

lemma conv_square:
  "conv (phi a) (phi a) k = phi a (234 * k)"
proof -
  define F where "F x = phi a x * phi a (k - x)" for x
  have "F (k - x) = F x" for x by (simp add: F_def mult.commute)
  then have "(\<Sum>x\<in>UNIV. F x) = F (234 * k)" by (rule sum_reflect)
  then have "conv (phi a) (phi a) k = phi a (234 * k) * phi a (234 * k)"
    by (simp add: conv_def F_def half_234)
  then show ?thesis by (simp add: phi_def)
qed

lemma g_232: "pm 234 (g 232)"
proof -
  have "2 * g 232 = g 233" using g_Suc [of 232] by simp
  then have "234 * (2 * g 232) = 234 * (- 1)" by (simp add: g_233)
  then have "(2 * 234) * g 232 = - 234" by (simp only: ac_simps) simp
  then have "g 232 = - 234" by (simp only: two_inv mult_1)
  then show ?thesis by (simp add: pm_def)
qed

lemma dlog_half:
  assumes "k \<noteq> 0"
  shows "dlog (234 * k) = (if dlog k = 0 then 232 else dlog k - 1)"
proof (cases "dlog k = 0")
  case True
  with dlog_props(2) [OF assms] have "pm k 1" by simp
  then have "pm (k * 234) (1 * 234)" by (rule pm_mult)
  then have "pm (234 * k) 234" by (simp add: mult.commute)
  with g_232 have "pm (234 * k) (g 232)" using pm_trans by blast
  then have "dlog (234 * k) = 232" by (intro dlog_unique) simp_all
  with True show ?thesis by simp
next
  case False
  then obtain s where s: "dlog k = Suc s" by (cases "dlog k") simp_all
  with dlog_props [OF assms] have "s < 233" "pm k (2 * g s)" by (simp_all add: g_Suc)
  then have "pm (k * 234) (2 * g s * 234)" using pm_mult by blast
  moreover have "2 * g s * 234 = (2 * 234) * g s" by (simp only: ac_simps)
  then have "2 * g s * 234 = g s" by (simp only: two_inv mult_1)
  ultimately have "pm (k * 234) (g s)" by (simp only:)
  then have "pm (234 * k) (g s)" by (simp only: mult.commute)
  with \<open>s < 233\<close> have "dlog (234 * k) = s" by (intro dlog_unique)
  with s show ?thesis by simp
qed

lemma co_squareONB:
  assumes "s < m"
  shows "co (squareONB a) s = (if s = 0 then co a (m - 1) else co a (s - 1))"
proof -
  have "m - 1 - s < m" by simp
  note nth = squareONB_nth [OF this, of a]
  show ?thesis
  proof (cases "s = 0")
    case True
    with nth show ?thesis by (simp add: co_def)
  next
    case False
    with assms have "m - 1 - s \<noteq> m - 1" "m - 1 - s + 1 = m - 1 - (s - 1)" by simp_all
    with nth False show ?thesis by (simp only: co_def if_False)
  qed
qed

lemma squareONB_eq_mul:
  assumes "length a = m"
  shows "squareONB a = mul a a"
proof (rule phi_inj)
  fix k
  show "phi (squareONB a) k = phi (mul a a) k"
  proof (cases "k = 0")
    case True
    then show ?thesis by simp
  next
    case False
    then have nz: "234 * k \<noteq> 0"
      using two_cancel [of "234 * k"] half_234 [of k] by (metis mult_zero_right diff_zero)
    from dlog_props(1) [OF False] have "dlog k < m" by (simp add: m_def)
    then have "phi (squareONB a) k = phi a (234 * k)"
      using False nz by (simp add: phi_def co_squareONB dlog_half m_def)
    then show ?thesis
      by (simp only: mul_phi [OF assms assms] conv_square)
  qed
qed simp_all

section \<open>Powers and the inversion chain\<close>

lemma length_pw [simp]: "length (pw a n) = m"
  by (cases n) simp_all

lemma mul_identity_left:
  assumes "length a = m"
  shows "mul identity a = a"
  using mul_comm [of identity a] mul_identity [OF assms] assms by simp

lemma pw_1:
  assumes "length a = m"
  shows "pw a 1 = a"
  using mul_identity_left [OF assms] by simp

lemma pw_add:
  assumes "length a = m"
  shows "pw a (n + k) = mul (pw a n) (pw a k)"
proof (induction k)
  case 0
  show ?case by (simp add: mul_identity)
next
  case (Suc k)
  have "pw a (n + Suc k) = mul (mul (pw a n) (pw a k)) a"
    by (simp add: Suc)
  also have "\<dots> = mul (pw a n) (mul (pw a k) a)"
    by (rule mul_assoc) (simp_all add: assms)
  finally show ?case by simp
qed

lemma pw_identity: "pw identity n = identity"
  by (induction n) (simp_all add: mul_identity)

lemma pw_mult:
  assumes "length a = m"
  shows "pw (pw a n) k = pw a (n * k)"
proof (induction k)
  case 0
  show ?case by simp
next
  case (Suc k)
  have "pw (pw a n) (Suc k) = mul (pw a (n * k)) (pw a n)"
    by (simp add: Suc)
  also have "\<dots> = pw a (n * k + n)"
    by (rule pw_add [OF assms, symmetric])
  finally show ?case by (simp add: add.commute)
qed

lemma squareONB_pw:
  assumes "length a = m"
  shows "squareONB a = pw a 2"
proof -
  have "pw a 2 = mul (pw a 1) a" by (simp add: numeral_2_eq_2)
  with pw_1 [OF assms] squareONB_eq_mul [OF assms] show ?thesis by simp
qed

lemma square_times_pw:
  assumes "length a = m"
  shows "square_times k a = pw a (2 ^ k)"
  using assms
proof (induction k arbitrary: a)
  case 0
  then show ?case by (simp add: mul_identity_left)
next
  case (Suc k)
  have "square_times (Suc k) a = pw (squareONB a) (2 ^ k)"
    using Suc.IH [of "squareONB a"] by simp
  also have "\<dots> = pw (pw a 2) (2 ^ k)"
    by (simp only: squareONB_pw [OF Suc.prems])
  also have "\<dots> = pw a (2 * 2 ^ k)"
    by (rule pw_mult [OF Suc.prems])
  finally show ?case by simp
qed

lemma square_times_nth:
  assumes "length a = m" "i < m"
  shows "square_times k a ! i = a ! ((i + k) mod m)"
  using assms
proof (induction k arbitrary: a)
  case 0
  then show ?case by simp
next
  case (Suc k)
  have "square_times (Suc k) a ! i = squareONB a ! ((i + k) mod m)"
    using Suc.IH [of "squareONB a"] Suc.prems by simp
  also have "\<dots> = a ! (((i + k) mod m + 1) mod m)"
  proof (cases "(i + k) mod m = m - 1")
    case True
    then show ?thesis by (simp add: squareONB_nth)
  next
    case False
    moreover have "(i + k) mod m < m" by simp
    ultimately have "(i + k) mod m + 1 < m" by linarith
    with False show ?thesis by (simp add: squareONB_nth)
  qed
  also have "((i + k) mod m + 1) mod m = (i + Suc k) mod m"
    by (simp add: mod_Suc_eq)
  finally show ?case .
qed

lemma length_square_times [simp]: "length a = m \<Longrightarrow> length (square_times k a) = m"
  by (induction k arbitrary: a) simp_all

lemma square_times_m:
  assumes "length a = m"
  shows "square_times m a = a"
  by (rule nth_equalityI) (simp_all add: assms square_times_nth)

lemma pw_frobenius:
  assumes "length a = m"
  shows "pw a (2 ^ m) = a"
  using square_times_pw [OF assms, of m] square_times_m [OF assms] by simp

lemma fixed_by_square:
  assumes "length f = m" "squareONB f = f"
  shows "f = zero \<or> f = identity"
proof -
  have step: "f ! (i + 1) = f ! i" if "i + 1 < m" for i
  proof -
    from that have "i < m" "i \<noteq> m - 1" by simp_all
    with squareONB_nth [of i f] assms(2) show ?thesis by simp
  qed
  have all: "i < m \<Longrightarrow> f ! i = f ! 0" for i
  proof (induction i)
    case 0
    show ?case by simp
  next
    case (Suc i)
    with step [of i] show ?case by simp
  qed
  have "f = replicate m (f ! 0)"
  proof (rule nth_equalityI)
    show "length f = length (replicate m (f ! 0))" by (simp add: assms(1))
  next
    fix i assume "i < length f"
    then have "i < m" by (simp add: assms(1))
    from all [OF this] this show "f ! i = replicate m (f ! 0) ! i" by simp
  qed
  note rep = this
  show ?thesis
  proof (cases "f ! 0")
    case True
    then have "replicate m (f ! 0) = replicate m True" by simp
    with rep have "f = replicate m True" by (rule trans)
    then show ?thesis by (simp add: identity_def)
  next
    case False
    then have "replicate m (f ! 0) = replicate m False" by simp
    with rep have "f = replicate m False" by (rule trans)
    then show ?thesis by (simp add: zero_def)
  qed
qed

lemma pow2_double: "(2 ^ k - 1) * 2 ^ k + (2 ^ k - 1) = 2 ^ (k * 2) - (1::nat)"
proof -
  obtain n where n: "(2::nat) ^ k = Suc n"
    by (cases "(2::nat) ^ k") simp_all
  have "(2::nat) ^ (k * 2) = 2 ^ k * 2 ^ k"
    by (simp add: power_mult power2_eq_square)
  then show ?thesis by (simp add: n)
qed

lemma pow2_bit: "Suc ((2 ^ j - 1) * 2) = 2 ^ (j + 1) - (1::nat)"
proof -
  obtain n where n: "(2::nat) ^ j = Suc n"
    by (cases "(2::nat) ^ j") simp_all
  then show ?thesis by simp
qed

lemma inverse_loop_pw:
  assumes "cache_ok c" "length a = m"
  shows "fst (inverse_loop is a (pw a (2 ^ k - 1)) k c) = pw a (2 ^ chain is k - 1)
         \<and> cache_ok (snd (inverse_loop is a (pw a (2 ^ k - 1)) k c))"
  using assms(1)
proof (induction "is" arbitrary: k c)
  case Nil
  then show ?case by simp
next
  case (Cons i "is")
  let ?beta = "pw a (2 ^ k - 1)"
  have sq: "square_times k ?beta = pw a ((2 ^ k - 1) * 2 ^ k)"
    by (simp only: square_times_pw length_pw pw_mult [OF assms(2)])
  obtain beta' c' where 1: "times_elem (square_times k ?beta) ?beta c = (beta', c')" by force
  have "beta' = fst (times_elem (square_times k ?beta) ?beta c)"
    by (simp only: 1 fst_conv)
  also have "\<dots> = mul (square_times k ?beta) ?beta"
    by (rule times_pure(1) [OF Cons.prems])
  also have "\<dots> = mul (pw a ((2 ^ k - 1) * 2 ^ k)) ?beta"
    by (simp only: sq)
  also have "\<dots> = pw a ((2 ^ k - 1) * 2 ^ k + (2 ^ k - 1))"
    by (rule pw_add [OF assms(2), symmetric])
  finally have b': "beta' = pw a (2 ^ (k * 2) - 1)"
    by (simp only: pow2_double)
  have "cache_ok (snd (times_elem (square_times k ?beta) ?beta c))"
    by (rule times_pure(2) [OF Cons.prems])
  then have c': "cache_ok c'" by (simp only: 1 snd_conv)
  show ?case
  proof (cases "m_binary ! i = CHR ''1''")
    case False
    have "inverse_loop (i # is) a ?beta k c = inverse_loop is a beta' (k * 2) c'"
      using False 1 by (simp only: inverse_loop.simps Let_def prod.case if_False)
    with Cons.IH [OF c', of "k * 2"] False show ?thesis
      by (simp only: b' chain.simps if_False)
  next
    case True
    obtain beta'' c'' where 2: "times_elem (squareONB beta') a c' = (beta'', c'')" by force
    have "beta'' = fst (times_elem (squareONB beta') a c')"
      by (simp only: 2 fst_conv)
    also have "\<dots> = mul (squareONB beta') a"
      by (rule times_pure(1) [OF c'])
    also have "squareONB beta' = pw a ((2 ^ (k * 2) - 1) * 2)"
      unfolding b' by (simp only: squareONB_pw length_pw pw_mult [OF assms(2)])
    also have "mul (pw a ((2 ^ (k * 2) - 1) * 2)) a = pw a (Suc ((2 ^ (k * 2) - 1) * 2))"
      by (simp only: pw.simps)
    finally have b'': "beta'' = pw a (2 ^ (k * 2 + 1) - 1)"
      by (simp only: pow2_bit)
    have "cache_ok (snd (times_elem (squareONB beta') a c'))"
      by (rule times_pure(2) [OF c'])
    then have c'': "cache_ok c''" by (simp only: 2 snd_conv)
    have "inverse_loop (i # is) a ?beta k c = inverse_loop is a beta'' (k * 2 + 1) c''"
      using True 1 2 by (simp only: inverse_loop.simps Let_def prod.case if_True simp_thms)
    with Cons.IH [OF c'', of "k * 2 + 1"] True show ?thesis
      by (simp only: b'' chain.simps if_True simp_thms)
  qed
qed

lemma chain_232: "chain [1..<8] 1 = 232"
  by (simp add: m_binary_def upt_rec [of _ 8] nth_Cons')

lemma inverse_pw:
  assumes "cache_ok c" "length a = m"
  shows "fst (inverse_elem a c) = pw a (2 ^ m - 2)" and "cache_ok (snd (inverse_elem a c))"
proof -
  obtain beta c' where 1: "inverse_loop [1..<8] a a 1 c = (beta, c')" by force
  have "pw a (2 ^ 1 - 1) = a" by (simp add: mul_identity_left assms(2))
  with inverse_loop_pw [OF assms, of "[1..<8]" 1] 1
  have beta: "beta = pw a (2 ^ 232 - 1)" and c': "cache_ok c'"
    by (simp_all only: chain_232 fst_conv snd_conv)
  have "squareONB beta = pw a ((2 ^ 232 - 1) * 2)"
    unfolding beta by (simp only: squareONB_pw length_pw pw_mult [OF assms(2)])
  also have "((2::nat) ^ 232 - 1) * 2 = 2 ^ 233 - 2"
    by (simp only: diff_mult_distrib power_Suc [symmetric] mult.commute [of _ 2] mult_1_right
          nat_mult_1_right) simp
  finally show "fst (inverse_elem a c) = pw a (2 ^ m - 2)"
    using 1 by (simp add: inverse_elem_def m_def)
  show "cache_ok (snd (inverse_elem a c))"
    using 1 c' by (simp add: inverse_elem_def)
qed

lemma mul_inverse_pw:
  assumes "length a = m" "a \<noteq> zero"
  shows "mul a (pw a (2 ^ m - 2)) = identity"
proof -
  define N :: nat where "N = 2 ^ m - 2"
  have N: "Suc (Suc N) = 2 ^ m"
  proof -
    have "(2::nat) ^ m = 2 ^ (m - 1) * 2" by (simp add: m_def)
    moreover have "(2::nat) ^ (m - 1) \<ge> 1" by simp
    ultimately show ?thesis unfolding N_def by linarith
  qed
  define f where "f = pw a (Suc N)"
  have f: "f = mul a (pw a N)"
    unfolding f_def using mul_comm [of "pw a N" a] assms(1) by simp
  have len: "length f = m" by (simp add: f_def)
  have frob: "pw a (Suc (Suc N)) = a"
    unfolding N by (rule pw_frobenius [OF assms(1)])
  have "mul f f = pw a (Suc N + Suc N)"
    unfolding f_def by (rule pw_add [OF assms(1), symmetric])
  also have "Suc N + Suc N = Suc (Suc N) + N" by simp
  also have "pw a (Suc (Suc N) + N) = mul (pw a (Suc (Suc N))) (pw a N)"
    by (rule pw_add [OF assms(1)])
  also have "\<dots> = f"
    unfolding frob f ..
  finally have "squareONB f = f"
    using squareONB_eq_mul [OF len] by simp
  from fixed_by_square [OF len this] show ?thesis
  proof
    assume "f = zero"
    then have "pw a (Suc (Suc N)) = mul zero a" by (simp add: f_def)
    with frob have "a = zero" by (simp add: mul_zero_left assms(1))
    with assms(2) show ?thesis by simp
  next
    assume "f = identity"
    with f show ?thesis by (simp add: N_def)
  qed
qed

lemma e0_nonzero: "e0 \<noteq> zero"
proof
  assume "e0 = zero"
  then have "e0 ! 0 = zero ! 0" by simp
  then show False by (simp add: e0_def zero_def)
qed

section \<open>Claims about squaring and inversion\<close>

text \<open>Claim C10: for every field element \<open>a\<close>, \<open>squareONB a\<close> equals the product of \<open>a\<close> with
  itself computed by the general multiplication routine, from every state of the cache that
  the program can reach.\<close>

theorem squareONB_is_self_product:
  assumes "cache_ok c" and "length a = m"
  shows "squareONB a = fst (times_elem a a c)"
  using times_pure(1) [OF assms(1), of a a] squareONB_eq_mul [OF assms(2)] by simp

theorem squareONB_is_self_product_witness:
  "cache_ok Map.empty \<and> length e0 = m \<and> squareONB e0 = fst (times_elem e0 e0 Map.empty)"
proof -
  have len: "length e0 = m" by (simp add: e0_def m_def)
  from squareONB_is_self_product [OF cache_ok_empty len] cache_ok_empty len show ?thesis by simp
qed

text \<open>Claim C1: for every non-zero field element \<open>a\<close>, \<open>inverse\<close> returns the power of \<open>a\<close>
  with exponent \<open>2 ^ 233 - 2\<close>, and multiplying \<open>a\<close> by it (with the cache as \<open>inverse\<close> left
  it) gives the all-true element, the multiplicative identity.\<close>

theorem multiply_inverse:
  assumes "cache_ok c" and "length a = m" and "a \<noteq> zero"
  shows "fst (inverse_elem a c) = pw a (2 ^ 233 - 2)
         \<and> fst (times_elem a (fst (inverse_elem a c)) (snd (inverse_elem a c))) = identity"
proof -
  have "fst (times_elem a (fst (inverse_elem a c)) (snd (inverse_elem a c)))
          = mul a (fst (inverse_elem a c))"
    by (rule times_pure(1) [OF inverse_pw(2) [OF assms(1,2)]])
  also have "\<dots> = mul a (pw a (2 ^ m - 2))"
    by (simp only: inverse_pw(1) [OF assms(1,2)])
  also have "\<dots> = identity"
    by (rule mul_inverse_pw [OF assms(2,3)])
  finally show ?thesis
    using inverse_pw(1) [OF assms(1,2)] by (simp add: m_def)
qed

theorem multiply_inverse_witness:
  "cache_ok Map.empty \<and> length e0 = m \<and> e0 \<noteq> zero
   \<and> fst (times_elem e0 (fst (inverse_elem e0 Map.empty)) (snd (inverse_elem e0 Map.empty)))
       = identity"
proof -
  have len: "length e0 = m" by (simp add: e0_def m_def)
  from multiply_inverse [OF cache_ok_empty len e0_nonzero] cache_ok_empty len e0_nonzero
  show ?thesis by blast
qed

end
